theory Spec2Isabelle
  imports Main "HOL-Library.Multiset" "HOL-Library.AList" "HOL-Library.Sublist"
begin

section \<open>Errors, panics and results\<close>

text \<open>
  A Go function of the controller either returns normally, returns a non-nil \<open>error\<close>,
  or panics (a nil pointer dereference, an index out of range).  All three are values
  of the model.
\<close>

datatype error =
    NotFound
  | AlreadyExists
  | ApiFailure string
  | DecodeError string
  | Wrapf string error
  | Aggregate "error list"

datatype panic = NilPointerDereference | IndexOutOfRange

datatype 'a go = Ret 'a | Fail error | Panic panic

section \<open>Components and the version-keyed catalog\<close>

datatype ServiceSpec = ServiceSpec string
datatype DeploymentSpec = DeploymentSpec string

text \<open>\<open>config.Component\<close>: the two specs are pointers, \<open>None\<close> is \<open>nil\<close>.\<close>

record Component =
  comp_Name :: string
  comp_Service :: "ServiceSpec option"
  comp_Deployment :: "DeploymentSpec option"

text \<open>\<open>iotv1alpha1.ServiceTemplateSpec\<close> and \<open>iotv1alpha1.DeploymentTemplateSpec\<close>.\<close>

record ServiceTemplateSpec =
  st_Name :: string
  st_Spec :: ServiceSpec

record DeploymentTemplateSpec =
  dt_Name :: string
  dt_Spec :: DeploymentSpec

section \<open>Pools of a YurtAppSet and the swap-with-last removal\<close>

text \<open>
  \<open>appsv1alpha1.Pool\<close>; a node selector requirement is (key, operator, values).
\<close>

record Pool =
  pool_Name :: string
  pool_Replicas :: "int option"
  pool_MatchExpressions :: "(string \<times> string \<times> string list) list"

text \<open>
  The loop of \<open>reconcileDelete\<close> over \<open>yas.Spec.Topology.Pools\<close>.  Go evaluates the
  range expression once: the loop runs over the original length of the slice and reads
  element \<open>i\<close> from the shared backing array, while the body overwrites
  \<open>Pools[i]\<close> and shortens \<open>Pools\<close>.  \<open>backing\<close> is the backing array, \<open>len\<close> the
  current length of \<open>yas.Spec.Topology.Pools\<close>; the assignment to \<open>Pools[i]\<close> panics
  when \<open>i\<close> is no longer below the current length.
\<close>

function rangePools :: "string \<Rightarrow> nat \<Rightarrow> Pool list \<Rightarrow> nat \<Rightarrow> panic + Pool list" where
  "rangePools poolName i backing len =
     (if i < length backing then
        (if pool_Name (backing ! i) = poolName then
           (if i < len then
              rangePools poolName (Suc i) (backing[i := backing ! (len - 1)]) (len - 1)
            else Inl IndexOutOfRange)
         else rangePools poolName (Suc i) backing len)
      else Inr (take len backing))"
  by pat_completeness auto
termination
  by (relation "measure (\<lambda>(p, i, b, l). length b - i)") auto

definition removePool :: "string \<Rightarrow> Pool list \<Rightarrow> panic + Pool list" where
  "removePool poolName pools = rangePools poolName 0 pools (length pools)"

section \<open>annotationToComponent\<close>

text \<open>
  What the Go runtime and standard library contribute: \<open>json.Unmarshal\<close> of the two
  annotation payloads (\<open>Inl\<close> is the decode error) and the order in which \<open>range\<close>
  visits the keys of a map, which Go leaves unspecified.
\<close>

record go_runtime =
  json_deployments :: "string \<Rightarrow> string + DeploymentTemplateSpec list"
  json_services :: "string \<Rightarrow> string + ServiceTemplateSpec list"
  map_order :: "string list \<Rightarrow> string list"

text \<open>
  The module is built with the loop semantics of Go before 1.22: a \<open>for ... := range\<close>
  statement has one variable for all its iterations.  \<open>&additionalservice.Spec\<close> and
  \<open>&additionalDeployment.Spec\<close> are therefore the same two addresses in every
  iteration; what they hold is what the variables hold when the pointers are read,
  after both loops.  \<open>frame\<close> is the storage of the two range variables.  The variable
  \<open>component\<close> is declared in the loop body, so each iteration has a fresh one.
\<close>

record frame =
  additionalservice :: ServiceTemplateSpec
  additionalDeployment :: DeploymentTemplateSpec

datatype service_ptr = Addr_additionalservice_Spec
datatype deployment_ptr = Addr_additionalDeployment_Spec

record component_cell =
  cell_Name :: string
  cell_Service :: "service_ptr option"
  cell_Deployment :: "deployment_ptr option"

definition zero_frame :: frame where
  "zero_frame =
     \<lparr>additionalservice = \<lparr>st_Name = '''', st_Spec = ServiceSpec ''''\<rparr>,
      additionalDeployment = \<lparr>dt_Name = '''', dt_Spec = DeploymentSpec ''''\<rparr>\<rparr>"

text \<open>First loop: \<open>services[additionalservice.Name] = &additionalservice.Spec\<close>.\<close>

fun rangeServices ::
  "ServiceTemplateSpec list \<Rightarrow> frame \<Rightarrow> (string \<times> service_ptr) list
     \<Rightarrow> frame \<times> (string \<times> service_ptr) list" where
  "rangeServices [] fr services = (fr, services)"
| "rangeServices (x # xs) fr services =
     (let fr' = fr\<lparr>additionalservice := x\<rparr> in
      rangeServices xs fr'
        (AList.update (st_Name (additionalservice fr')) Addr_additionalservice_Spec services))"

text \<open>Second loop: one component per additional deployment.\<close>

fun rangeDeployments ::
  "(string \<times> service_ptr) list \<Rightarrow> DeploymentTemplateSpec list \<Rightarrow> frame
     \<Rightarrow> component_cell list \<Rightarrow> string list
     \<Rightarrow> frame \<times> component_cell list \<times> string list" where
  "rangeDeployments services [] fr components usedServices = (fr, components, usedServices)"
| "rangeDeployments services (x # xs) fr components usedServices =
     (let fr' = fr\<lparr>additionalDeployment := x\<rparr>;
          component = \<lparr>cell_Name = dt_Name (additionalDeployment fr'),
                       cell_Service = None,
                       cell_Deployment = Some Addr_additionalDeployment_Spec\<rparr>
      in (case map_of services (cell_Name component) of
            Some service \<Rightarrow>
              rangeDeployments services xs fr'
                (components @ [component\<lparr>cell_Service := Some service\<rparr>])
                (List.insert (cell_Name component) usedServices)
          | None \<Rightarrow>
              rangeDeployments services xs fr' (components @ [component]) usedServices))"

text \<open>Third loop, over the map \<open>services\<close> in the order the runtime picks.\<close>

fun rangeUnused ::
  "(string \<times> service_ptr) list \<Rightarrow> string list \<Rightarrow> string list
     \<Rightarrow> component_cell list \<Rightarrow> component_cell list" where
  "rangeUnused services usedServices [] components = components"
| "rangeUnused services usedServices (name # names) components =
     (if name \<in> set usedServices then rangeUnused services usedServices names components
      else rangeUnused services usedServices names
             (components @
                [\<lparr>cell_Name = name, cell_Service = map_of services name,
                  cell_Deployment = None\<rparr>]))"

text \<open>Reading the pointers of a component once the function has returned.\<close>

definition deref :: "frame \<Rightarrow> component_cell \<Rightarrow> Component" where
  "deref fr cell =
     \<lparr>comp_Name = cell_Name cell,
      comp_Service =
        (case cell_Service cell of
           None \<Rightarrow> None
         | Some Addr_additionalservice_Spec \<Rightarrow> Some (st_Spec (additionalservice fr))),
      comp_Deployment =
        (case cell_Deployment cell of
           None \<Rightarrow> None
         | Some Addr_additionalDeployment_Spec \<Rightarrow> Some (dt_Spec (additionalDeployment fr)))\<rparr>"

definition unmarshalDeployments ::
  "go_runtime \<Rightarrow> (string \<times> string) list \<Rightarrow> error + DeploymentTemplateSpec list" where
  "unmarshalDeployments rt annotation =
     (case map_of annotation ''AdditionalDeployments'' of
        None \<Rightarrow> Inr []
      | Some s \<Rightarrow>
          (case json_deployments rt s of Inl msg \<Rightarrow> Inl (DecodeError msg) | Inr ds \<Rightarrow> Inr ds))"

definition unmarshalServices ::
  "go_runtime \<Rightarrow> (string \<times> string) list \<Rightarrow> error + ServiceTemplateSpec list" where
  "unmarshalServices rt annotation =
     (case map_of annotation ''AdditionalServices'' of
        None \<Rightarrow> Inr []
      | Some s \<Rightarrow>
          (case json_services rt s of Inl msg \<Rightarrow> Inl (DecodeError msg) | Inr ss \<Rightarrow> Inr ss))"

definition mergeAdditional ::
  "go_runtime \<Rightarrow> DeploymentTemplateSpec list \<Rightarrow> ServiceTemplateSpec list \<Rightarrow> Component list" where
  "mergeAdditional rt additionalDeployments additionalServices =
     (if length additionalDeployments = 0 \<and> length additionalServices = 0 then []
      else
        (case rangeServices additionalServices zero_frame [] of
           (fr1, services) \<Rightarrow>
             (case rangeDeployments services additionalDeployments fr1 [] [] of
                (fr2, components, usedServices) \<Rightarrow>
                  map (deref fr2)
                    (if length usedServices < length services then
                       rangeUnused services usedServices
                         (map_order rt (map fst services)) components
                     else components))))"

definition annotationToComponent ::
  "go_runtime \<Rightarrow> (string \<times> string) list \<Rightarrow> error + Component list" where
  "annotationToComponent rt annotation =
     (case unmarshalDeployments rt annotation of
        Inl err \<Rightarrow> Inl err
      | Inr additionalDeployments \<Rightarrow>
          (case unmarshalServices rt annotation of
             Inl err \<Rightarrow> Inl err
           | Inr additionalServices \<Rightarrow>
               Inr (mergeAdditional rt additionalDeployments additionalServices)))"

section \<open>Kubernetes objects\<close>

record OwnerReference =
  ref_APIVersion :: string
  ref_Kind :: string
  ref_Name :: string
  ref_UID :: string
  ref_Controller :: "bool option"
  ref_BlockOwnerDeletion :: "bool option"

text \<open>\<open>metav1.ObjectMeta\<close>; a Go map of strings is an association list.\<close>

record ObjectMeta =
  Name :: string
  Namespace :: string
  UID :: string
  Labels :: "(string \<times> string) list"
  Annotations :: "(string \<times> string) list"
  OwnerReferences :: "OwnerReference list"
  Finalizers :: "string list"
  DeletionTimestamp :: "nat option"

record ConfigMap = ObjectMeta +
  Data :: "(string \<times> string) list"

record Service = ObjectMeta +
  Service_Spec :: ServiceSpec

record YurtAppSet = ObjectMeta +
  Spec_Selector :: "(string \<times> string) list"
  Spec_WorkloadTemplate :: "(string \<times> string) list \<times> DeploymentSpec"
  Spec_Topology_Pools :: "Pool list"
  Status_PoolReplicas :: "(string \<times> int) list"
  Status_ReadyReplicas :: int
  Status_Replicas :: int

record PlatformAdminCondition =
  cond_Type :: string
  cond_Status :: bool
  cond_Reason :: string
  cond_Message :: string

record PlatformAdminStatus =
  Ready :: bool
  Initialized :: bool
  ReadyComponentNum :: int
  UnreadyComponentNum :: int
  Conditions :: "PlatformAdminCondition list"

record PlatformAdmin = ObjectMeta +
  Spec_Security :: bool
  Spec_Version :: string
  Spec_PoolName :: string
  Status :: PlatformAdminStatus

text \<open>\<open>config.PlatformAdminControllerConfiguration\<close>: four maps keyed by version.\<close>

record PlatformAdminControllerConfiguration =
  SecurityComponents :: "(string \<times> Component list) list"
  NoSectyComponents :: "(string \<times> Component list) list"
  SecurityConfigMaps :: "(string \<times> ConfigMap list) list"
  NoSectyConfigMaps :: "(string \<times> ConfigMap list) list"

text \<open>Indexing a Go map of slices with an absent key yields the nil slice.\<close>

definition index_map :: "(string \<times> 'a list) list \<Rightarrow> string \<Rightarrow> 'a list" where
  "index_map m k = (case map_of m k of None \<Rightarrow> [] | Some xs \<Rightarrow> xs)"

text \<open>Constants of the API packages and of the controller.\<close>

definition LabelPlatformAdminGenerate :: string where
  "LabelPlatformAdminGenerate = ''iot.openyurt.io/generate''"
definition PlatformAdminFinalizer :: string where
  "PlatformAdminFinalizer = ''iot.openyurt.io''"
definition LabelCurrentNodePool :: string where
  "LabelCurrentNodePool = ''apps.openyurt.io/nodepool''"
definition LabelConfigmap :: string where "LabelConfigmap = ''Configmap''"
definition LabelService :: string where "LabelService = ''Service''"
definition LabelDeployment :: string where "LabelDeployment = ''Deployment''"
definition AnnotationServiceTopologyKey :: string where
  "AnnotationServiceTopologyKey = ''openyurt.io/topologyKeys''"
definition AnnotationServiceTopologyValueNodePool :: string where
  "AnnotationServiceTopologyValueNodePool = ''openyurt.io/nodepool''"
definition ConfigmapAvailableCondition :: string where
  "ConfigmapAvailableCondition = ''ConfigmapAvailable''"
definition ComponentAvailableCondition :: string where
  "ComponentAvailableCondition = ''ComponentAvailable''"
definition ConfigmapProvisioningReason :: string where
  "ConfigmapProvisioningReason = ''ConfigmapProvisioning''"
definition ConfigmapProvisioningFailedReason :: string where
  "ConfigmapProvisioningFailedReason = ''ConfigmapProvisioningFailed''"
definition ComponentProvisioningReason :: string where
  "ComponentProvisioningReason = ''ComponentProvisioning''"

section \<open>The cluster behind the client\<close>

datatype kind = KPlatformAdmin | KConfigMap | KService | KYurtAppSet
datatype verb = VGet | VList | VCreate | VUpdate | VPatch | VDelete | VStatusUpdate

type_synonym key = "string \<times> string"
type_synonym call = "verb \<times> kind \<times> key"

text \<open>
  The state of the API server: one store per kind, keyed by (namespace, name), and
  the calls issued so far, each with the error it returned (\<open>None\<close> for success).
\<close>

record cluster =
  store_platformadmins :: "(key \<times> PlatformAdmin) list"
  store_configmaps :: "(key \<times> ConfigMap) list"
  store_services :: "(key \<times> Service) list"
  store_yurtappsets :: "(key \<times> YurtAppSet) list"
  calls :: "(call \<times> error option) list"

text \<open>
  The reconciler: its configuration, the Go runtime it runs on, and the client.  The
  client is the source of failures that do not depend on the stored objects: the call
  issued when \<open>n\<close> calls have been made fails with the given message, if any.
\<close>

record ReconcilePlatformAdmin =
  Configration :: PlatformAdminControllerConfiguration
  runtime :: go_runtime
  Client :: "nat \<Rightarrow> call \<Rightarrow> string option"

record 'a resource =
  res_kind :: kind
  res_objects :: "cluster \<Rightarrow> (key \<times> 'a) list"
  res_store :: "(key \<times> 'a) list \<Rightarrow> cluster \<Rightarrow> cluster"

definition PlatformAdmins :: "PlatformAdmin resource" where
  "PlatformAdmins =
     \<lparr>res_kind = KPlatformAdmin, res_objects = store_platformadmins,
      res_store = (\<lambda>xs c. c\<lparr>store_platformadmins := xs\<rparr>)\<rparr>"

definition ConfigMaps :: "ConfigMap resource" where
  "ConfigMaps =
     \<lparr>res_kind = KConfigMap, res_objects = store_configmaps,
      res_store = (\<lambda>xs c. c\<lparr>store_configmaps := xs\<rparr>)\<rparr>"

definition Services :: "Service resource" where
  "Services =
     \<lparr>res_kind = KService, res_objects = store_services,
      res_store = (\<lambda>xs c. c\<lparr>store_services := xs\<rparr>)\<rparr>"

definition YurtAppSets :: "YurtAppSet resource" where
  "YurtAppSets =
     \<lparr>res_kind = KYurtAppSet, res_objects = store_yurtappsets,
      res_store = (\<lambda>xs c. c\<lparr>store_yurtappsets := xs\<rparr>)\<rparr>"

definition objKey :: "'a ObjectMeta_scheme \<Rightarrow> key" where
  "objKey obj = (Namespace obj, Name obj)"

definition called :: "call \<Rightarrow> error option \<Rightarrow> cluster \<Rightarrow> cluster" where
  "called cl err c = c\<lparr>calls := calls c @ [(cl, err)]\<rparr>"

text \<open>
  The error of a write call on one object: the client's failure if it injects one,
  else \<open>absent\<close> when the object is not stored and \<open>present\<close> when it is.
\<close>

definition callError ::
  "ReconcilePlatformAdmin \<Rightarrow> call \<Rightarrow> cluster \<Rightarrow> bool \<Rightarrow> error option \<Rightarrow> error option
     \<Rightarrow> error option" where
  "callError r cl c stored absent present =
     (case Client r (length (calls c)) cl of
        Some msg \<Rightarrow> Some (ApiFailure msg)
      | None \<Rightarrow> if stored then present else absent)"

definition apiGet ::
  "ReconcilePlatformAdmin \<Rightarrow> 'a resource \<Rightarrow> key \<Rightarrow> cluster \<Rightarrow> (error + 'a) \<times> cluster" where
  "apiGet r R k c =
     (case Client r (length (calls c)) (VGet, res_kind R, k) of
        Some msg \<Rightarrow>
          (Inl (ApiFailure msg), called (VGet, res_kind R, k) (Some (ApiFailure msg)) c)
      | None \<Rightarrow>
          (case map_of (res_objects R c) k of
             None \<Rightarrow> (Inl NotFound, called (VGet, res_kind R, k) (Some NotFound) c)
           | Some obj \<Rightarrow> (Inr obj, called (VGet, res_kind R, k) None c)))"

definition apiCreate ::
  "ReconcilePlatformAdmin \<Rightarrow> ('a ObjectMeta_scheme) resource \<Rightarrow> 'a ObjectMeta_scheme
     \<Rightarrow> cluster \<Rightarrow> error option \<times> cluster" where
  "apiCreate r R obj c =
     (case callError r (VCreate, res_kind R, objKey obj) c
             (map_of (res_objects R c) (objKey obj) \<noteq> None) None (Some AlreadyExists) of
        Some err \<Rightarrow> (Some err, called (VCreate, res_kind R, objKey obj) (Some err) c)
      | None \<Rightarrow>
          (None, called (VCreate, res_kind R, objKey obj) None
                   (res_store R (res_objects R c @ [(objKey obj, obj)]) c)))"

text \<open>
  \<open>Update\<close> and \<open>Patch\<close> of a child object.  The merge patch of \<open>reconcileComponent\<close>
  and \<open>reconcileDelete\<close> is computed against the copy fetched in the same pass, and
  passes for one parent never overlap, so it leaves the object as the caller has it.
\<close>

definition apiWrite ::
  "verb \<Rightarrow> ReconcilePlatformAdmin \<Rightarrow> ('a ObjectMeta_scheme) resource \<Rightarrow> 'a ObjectMeta_scheme
     \<Rightarrow> cluster \<Rightarrow> error option \<times> cluster" where
  "apiWrite v r R obj c =
     (case callError r (v, res_kind R, objKey obj) c
             (map_of (res_objects R c) (objKey obj) \<noteq> None) (Some NotFound) None of
        Some err \<Rightarrow> (Some err, called (v, res_kind R, objKey obj) (Some err) c)
      | None \<Rightarrow>
          (None, called (v, res_kind R, objKey obj) None
                   (res_store R (AList.update (objKey obj) obj (res_objects R c)) c)))"

abbreviation "apiUpdate \<equiv> apiWrite VUpdate"
abbreviation "apiPatch \<equiv> apiWrite VPatch"

definition apiDelete ::
  "ReconcilePlatformAdmin \<Rightarrow> ('a ObjectMeta_scheme) resource \<Rightarrow> 'a ObjectMeta_scheme
     \<Rightarrow> cluster \<Rightarrow> error option \<times> cluster" where
  "apiDelete r R obj c =
     (case callError r (VDelete, res_kind R, objKey obj) c
             (map_of (res_objects R c) (objKey obj) \<noteq> None) (Some NotFound) None of
        Some err \<Rightarrow> (Some err, called (VDelete, res_kind R, objKey obj) (Some err) c)
      | None \<Rightarrow>
          (None, called (VDelete, res_kind R, objKey obj) None
                   (res_store R (AList.delete (objKey obj) (res_objects R c)) c)))"

text \<open>\<open>List\<close> in a namespace with \<open>MatchingLabels{LabelPlatformAdminGenerate: v}\<close>.\<close>

definition apiList ::
  "ReconcilePlatformAdmin \<Rightarrow> ('a ObjectMeta_scheme) resource \<Rightarrow> string \<Rightarrow> string
     \<Rightarrow> cluster \<Rightarrow> (error + 'a ObjectMeta_scheme list) \<times> cluster" where
  "apiList r R ns v c =
     (case callError r (VList, res_kind R, (ns, v)) c True None None of
        Some err \<Rightarrow> (Inl err, called (VList, res_kind R, (ns, v)) (Some err) c)
      | None \<Rightarrow>
          (Inr (filter (\<lambda>obj. Namespace obj = ns \<and>
                           map_of (Labels obj) LabelPlatformAdminGenerate = Some v)
                  (map snd (res_objects R c))),
           called (VList, res_kind R, (ns, v)) None c))"

text \<open>
  \<open>Update\<close> of the parent: the status is a subresource and keeps its stored value;
  a parent marked for deletion is removed by the server once its finalizers are gone.
\<close>

definition updatePlatformAdmin ::
  "ReconcilePlatformAdmin \<Rightarrow> PlatformAdmin \<Rightarrow> cluster \<Rightarrow> error option \<times> cluster" where
  "updatePlatformAdmin r pa c =
     (case Client r (length (calls c)) (VUpdate, KPlatformAdmin, objKey pa) of
        Some msg \<Rightarrow>
          (Some (ApiFailure msg),
           called (VUpdate, KPlatformAdmin, objKey pa) (Some (ApiFailure msg)) c)
      | None \<Rightarrow>
          (case map_of (store_platformadmins c) (objKey pa) of
             None \<Rightarrow>
               (Some NotFound, called (VUpdate, KPlatformAdmin, objKey pa) (Some NotFound) c)
           | Some stored \<Rightarrow>
               (None, called (VUpdate, KPlatformAdmin, objKey pa) None
                  (c\<lparr>store_platformadmins :=
                       (if DeletionTimestamp pa \<noteq> None \<and> Finalizers pa = []
                        then AList.delete (objKey pa) (store_platformadmins c)
                        else AList.update (objKey pa) (pa\<lparr>Status := Status stored\<rparr>)
                               (store_platformadmins c))\<rparr>))))"

text \<open>\<open>r.Status().Update\<close>: only the status of the stored parent changes.\<close>

definition statusUpdate ::
  "ReconcilePlatformAdmin \<Rightarrow> PlatformAdmin \<Rightarrow> cluster \<Rightarrow> error option \<times> cluster" where
  "statusUpdate r pa c =
     (case Client r (length (calls c)) (VStatusUpdate, KPlatformAdmin, objKey pa) of
        Some msg \<Rightarrow>
          (Some (ApiFailure msg),
           called (VStatusUpdate, KPlatformAdmin, objKey pa) (Some (ApiFailure msg)) c)
      | None \<Rightarrow>
          (case map_of (store_platformadmins c) (objKey pa) of
             None \<Rightarrow>
               (Some NotFound,
                called (VStatusUpdate, KPlatformAdmin, objKey pa) (Some NotFound) c)
           | Some stored \<Rightarrow>
               (None, called (VStatusUpdate, KPlatformAdmin, objKey pa) None
                  (c\<lparr>store_platformadmins :=
                       AList.update (objKey pa) (stored\<lparr>Status := Status pa\<rparr>)
                         (store_platformadmins c)\<rparr>))))"

section \<open>controllerutil\<close>

fun firstIndex :: "('a \<Rightarrow> bool) \<Rightarrow> 'a list \<Rightarrow> nat option" where
  "firstIndex P [] = None"
| "firstIndex P (x # xs) = (if P x then Some 0 else map_option Suc (firstIndex P xs))"

text \<open>The group of an \<open>apiVersion\<close>: what precedes the slash, empty without one.\<close>

definition groupOf :: "string \<Rightarrow> string" where
  "groupOf v = (if CHR ''/'' \<in> set v then takeWhile (\<lambda>ch. ch \<noteq> CHR ''/'') v else [])"

definition referSameObject :: "OwnerReference \<Rightarrow> OwnerReference \<Rightarrow> bool" where
  "referSameObject a b =
     (groupOf (ref_APIVersion a) = groupOf (ref_APIVersion b) \<and>
      ref_Kind a = ref_Kind b \<and> ref_Name a = ref_Name b)"

definition upsertOwnerRef :: "OwnerReference \<Rightarrow> 'a ObjectMeta_scheme \<Rightarrow> 'a ObjectMeta_scheme" where
  "upsertOwnerRef ref obj =
     (case firstIndex (\<lambda>owner. referSameObject owner ref) (OwnerReferences obj) of
        None \<Rightarrow> obj\<lparr>OwnerReferences := OwnerReferences obj @ [ref]\<rparr>
      | Some idx \<Rightarrow> obj\<lparr>OwnerReferences := (OwnerReferences obj)[idx := ref]\<rparr>)"

text \<open>
  \<open>SetOwnerReference\<close> writes a plain reference to the owner, overwriting a reference
  to the same object if there is one; \<open>SetControllerReference\<close> writes one with the
  controller and block-owner-deletion flags set.  Their validations cannot fail in this
  controller: every object is in the parent's namespace, and \<open>SetControllerReference\<close>
  is only called on an object built without owners.
\<close>

definition ownerRefOf :: "PlatformAdmin \<Rightarrow> bool option \<Rightarrow> OwnerReference" where
  "ownerRefOf owner flag =
     \<lparr>ref_APIVersion = ''iot.openyurt.io/v1alpha2'', ref_Kind = ''PlatformAdmin'',
      ref_Name = Name owner, ref_UID = UID owner,
      ref_Controller = flag, ref_BlockOwnerDeletion = flag\<rparr>"

definition SetOwnerReference :: "PlatformAdmin \<Rightarrow> 'a ObjectMeta_scheme \<Rightarrow> 'a ObjectMeta_scheme" where
  "SetOwnerReference owner obj = upsertOwnerRef (ownerRefOf owner None) obj"

definition SetControllerReference ::
  "PlatformAdmin \<Rightarrow> 'a ObjectMeta_scheme \<Rightarrow> 'a ObjectMeta_scheme" where
  "SetControllerReference owner obj = upsertOwnerRef (ownerRefOf owner (Some True)) obj"

definition AddFinalizer :: "'a ObjectMeta_scheme \<Rightarrow> string \<Rightarrow> 'a ObjectMeta_scheme" where
  "AddFinalizer obj f =
     (if f \<in> set (Finalizers obj) then obj else obj\<lparr>Finalizers := Finalizers obj @ [f]\<rparr>)"

definition RemoveFinalizer :: "'a ObjectMeta_scheme \<Rightarrow> string \<Rightarrow> 'a ObjectMeta_scheme" where
  "RemoveFinalizer obj f = obj\<lparr>Finalizers := filter (\<lambda>g. g \<noteq> f) (Finalizers obj)\<rparr>"

text \<open>
  \<open>CreateOrUpdate\<close>: fetch by key into the object; create the mutated object when it
  is absent, otherwise mutate what was fetched and update only if that changed it.
\<close>

definition CreateOrUpdate ::
  "ReconcilePlatformAdmin \<Rightarrow> ('a ObjectMeta_scheme) resource \<Rightarrow> 'a ObjectMeta_scheme
     \<Rightarrow> ('a ObjectMeta_scheme \<Rightarrow> 'a ObjectMeta_scheme) \<Rightarrow> cluster \<Rightarrow> error option \<times> cluster" where
  "CreateOrUpdate r R obj f c =
     (case apiGet r R (objKey obj) c of
        (Inl err, c1) \<Rightarrow> if err \<noteq> NotFound then (Some err, c1) else apiCreate r R (f obj) c1
      | (Inr existing, c1) \<Rightarrow>
          if existing = f existing then (None, c1) else apiUpdate r R (f existing) c1)"

section \<open>Status conditions\<close>

text \<open>
  Modelled from the spec: \<open>util.NewPlatformAdminCondition\<close> and
  \<open>util.SetPlatformAdminCondition\<close> live in the package \<open>platformadmin/utils\<close>, which
  is not among the sources.  The spec has each condition carry a type, a boolean, a
  reason and a message, and has a condition replaced per type, never appended.
\<close>

definition NewPlatformAdminCondition ::
  "string \<Rightarrow> bool \<Rightarrow> string \<Rightarrow> string \<Rightarrow> PlatformAdminCondition" where
  "NewPlatformAdminCondition t s reason message =
     \<lparr>cond_Type = t, cond_Status = s, cond_Reason = reason, cond_Message = message\<rparr>"

definition SetPlatformAdminCondition ::
  "PlatformAdminStatus \<Rightarrow> PlatformAdminCondition \<Rightarrow> PlatformAdminStatus" where
  "SetPlatformAdminCondition status cond =
     status\<lparr>Conditions :=
       filter (\<lambda>c. cond_Type c \<noteq> cond_Type cond) (Conditions status) @ [cond]\<rparr>"

text \<open>\<open>err.Error()\<close>, as far as the conditions need it.\<close>

fun Error_text :: "error \<Rightarrow> string" where
  "Error_text NotFound = ''not found''"
| "Error_text AlreadyExists = ''already exists''"
| "Error_text (ApiFailure msg) = msg"
| "Error_text (DecodeError msg) = msg"
| "Error_text (Wrapf msg err) = msg @ '': '' @ Error_text err"
| "Error_text (Aggregate errs) = concat (map Error_text errs)"

section \<open>The controller\<close>

record Result =
  Requeue :: bool
  RequeueAfter :: nat

definition Result_zero :: Result where
  "Result_zero = \<lparr>Requeue = False, RequeueAfter = 0\<rparr>"

text \<open>
  The desired components, as both \<open>reconcileComponent\<close> and \<open>reconcileDelete\<close>
  compute them: the catalog list selected by \<open>Spec.Security\<close> and \<open>Spec.Version\<close>,
  followed by the components of the annotations.
\<close>

definition catalogComponents :: "ReconcilePlatformAdmin \<Rightarrow> PlatformAdmin \<Rightarrow> Component list" where
  "catalogComponents r platformAdmin =
     (if Spec_Security platformAdmin
      then index_map (SecurityComponents (Configration r)) (Spec_Version platformAdmin)
      else index_map (NoSectyComponents (Configration r)) (Spec_Version platformAdmin))"

definition desiredComponentsOf ::
  "ReconcilePlatformAdmin \<Rightarrow> PlatformAdmin \<Rightarrow> error + Component list" where
  "desiredComponentsOf r platformAdmin =
     (case annotationToComponent (runtime r) (Annotations platformAdmin) of
        Inl err \<Rightarrow> Inl err
      | Inr additionalComponents \<Rightarrow>
          Inr (catalogComponents r platformAdmin @ additionalComponents))"

subsection \<open>removeOwner\<close>

definition removeOwner ::
  "ReconcilePlatformAdmin \<Rightarrow> ('a ObjectMeta_scheme) resource \<Rightarrow> PlatformAdmin
     \<Rightarrow> 'a ObjectMeta_scheme \<Rightarrow> cluster \<Rightarrow> error option \<times> cluster" where
  "removeOwner r R platformAdmin obj c =
     (case firstIndex (\<lambda>owner. ref_UID owner = UID platformAdmin) (OwnerReferences obj) of
        None \<Rightarrow> (None, c)
      | Some i \<Rightarrow>
          (let owners = OwnerReferences obj;
               owners' = take (length owners - 1) (owners[i := owners ! (length owners - 1)])
           in if length owners' = 0 then apiDelete r R obj c
              else apiUpdate r R (obj\<lparr>OwnerReferences := owners'\<rparr>) c))"

text \<open>
  The loops over a listing that drop this parent from the objects no longer needed;
  the error of \<open>removeOwner\<close> is discarded.
\<close>

fun removeUnneeded ::
  "ReconcilePlatformAdmin \<Rightarrow> ('a ObjectMeta_scheme) resource \<Rightarrow> PlatformAdmin
     \<Rightarrow> string list \<Rightarrow> 'a ObjectMeta_scheme list \<Rightarrow> cluster \<Rightarrow> cluster" where
  "removeUnneeded r R platformAdmin need [] c = c"
| "removeUnneeded r R platformAdmin need (s # items) c =
     (if Name s \<notin> set need
      then removeUnneeded r R platformAdmin need items
             (snd (removeOwner r R platformAdmin s c))
      else removeUnneeded r R platformAdmin need items c)"

definition collectUnneeded ::
  "ReconcilePlatformAdmin \<Rightarrow> ('a ObjectMeta_scheme) resource \<Rightarrow> PlatformAdmin
     \<Rightarrow> string \<Rightarrow> string list \<Rightarrow> cluster \<Rightarrow> cluster" where
  "collectUnneeded r R platformAdmin label need c =
     (case apiList r R (Namespace platformAdmin) label c of
        (Inl err, c1) \<Rightarrow> c1
      | (Inr items, c1) \<Rightarrow> removeUnneeded r R platformAdmin need items c1)"

subsection \<open>reconcileConfigmap\<close>

fun rangeConfigmaps ::
  "ReconcilePlatformAdmin \<Rightarrow> PlatformAdmin \<Rightarrow> ConfigMap list \<Rightarrow> string list \<Rightarrow> cluster
     \<Rightarrow> (error + string list) \<times> cluster" where
  "rangeConfigmaps r platformAdmin [] needConfigMaps c = (Inr needConfigMaps, c)"
| "rangeConfigmaps r platformAdmin (configmap # rest) needConfigMaps c =
     (let configmap' = configmap\<lparr>Namespace := Namespace platformAdmin,
                                   Labels := [(LabelPlatformAdminGenerate, LabelConfigmap)]\<rparr>
      in (case CreateOrUpdate r ConfigMaps configmap' (SetOwnerReference platformAdmin) c of
            (Some err, c1) \<Rightarrow> (Inl err, c1)
          | (None, c1) \<Rightarrow>
              rangeConfigmaps r platformAdmin rest (Name configmap' # needConfigMaps) c1))"

definition reconcileConfigmap ::
  "ReconcilePlatformAdmin \<Rightarrow> PlatformAdmin \<Rightarrow> cluster \<Rightarrow> bool go \<times> cluster" where
  "reconcileConfigmap r platformAdmin c =
     (let configmaps =
            (if Spec_Security platformAdmin
             then index_map (SecurityConfigMaps (Configration r)) (Spec_Version platformAdmin)
             else index_map (NoSectyConfigMaps (Configration r)) (Spec_Version platformAdmin))
      in (case rangeConfigmaps r platformAdmin configmaps [] c of
            (Inl err, c1) \<Rightarrow> (Fail err, c1)
          | (Inr needConfigMaps, c1) \<Rightarrow>
              (Ret True,
               collectUnneeded r ConfigMaps platformAdmin LabelConfigmap needConfigMaps c1)))"

subsection \<open>handleService and handleYurtAppSet\<close>

definition handleService ::
  "ReconcilePlatformAdmin \<Rightarrow> PlatformAdmin \<Rightarrow> Component \<Rightarrow> cluster \<Rightarrow> error option \<times> cluster" where
  "handleService r platformAdmin component c =
     (case comp_Service component of
        None \<Rightarrow> (None, c)
      | Some spec \<Rightarrow>
          CreateOrUpdate r Services
            \<lparr>Name = comp_Name component, Namespace = Namespace platformAdmin, UID = [],
             Labels = [(LabelPlatformAdminGenerate, LabelService)],
             Annotations =
               [(AnnotationServiceTopologyKey, AnnotationServiceTopologyValueNodePool)],
             OwnerReferences = [], Finalizers = [], DeletionTimestamp = None,
             Service_Spec = spec\<rparr>
            (SetOwnerReference platformAdmin) c)"

definition newPool :: "PlatformAdmin \<Rightarrow> Pool" where
  "newPool platformAdmin =
     \<lparr>pool_Name = Spec_PoolName platformAdmin, pool_Replicas = Some 1,
      pool_MatchExpressions = [(LabelCurrentNodePool, ''In'', [Spec_PoolName platformAdmin])]\<rparr>"

text \<open>
  \<open>handleYurtAppSet\<close> builds the object first; the composite literal reads
  \<open>*component.Deployment\<close>, which panics on a component without a deployment.
\<close>

definition handleYurtAppSet ::
  "ReconcilePlatformAdmin \<Rightarrow> PlatformAdmin \<Rightarrow> Component \<Rightarrow> cluster \<Rightarrow> unit go \<times> cluster" where
  "handleYurtAppSet r platformAdmin component c =
     (case comp_Deployment component of
        None \<Rightarrow> (Panic NilPointerDereference, c)
      | Some spec \<Rightarrow>
          (let yas =
                 \<lparr>Name = comp_Name component, Namespace = Namespace platformAdmin, UID = [],
                  Labels = [(LabelPlatformAdminGenerate, LabelDeployment)],
                  Annotations = [], OwnerReferences = [], Finalizers = [],
                  DeletionTimestamp = None,
                  Spec_Selector = [(''app'', comp_Name component)],
                  Spec_WorkloadTemplate = ([(''app'', comp_Name component)], spec),
                  Spec_Topology_Pools = [] @ [newPool platformAdmin],
                  Status_PoolReplicas = [], Status_ReadyReplicas = 0, Status_Replicas = 0\<rparr>
           in (case apiCreate r YurtAppSets (SetControllerReference platformAdmin yas) c of
                 (Some err, c1) \<Rightarrow> (Fail err, c1)
               | (None, c1) \<Rightarrow> (Ret (), c1))))"

subsection \<open>reconcileComponent\<close>

text \<open>
  The join of an existing workload-set whose status does not report the pool yet:
  append the pool unless one of that name is there, then set the owner reference.
\<close>

definition joinPool :: "PlatformAdmin \<Rightarrow> YurtAppSet \<Rightarrow> YurtAppSet" where
  "joinPool platformAdmin yas =
     (let pool = newPool platformAdmin;
          flag = list_ex (\<lambda>up. pool_Name up = pool_Name pool) (Spec_Topology_Pools yas)
      in SetOwnerReference platformAdmin
           (if \<not> flag then yas\<lparr>Spec_Topology_Pools := Spec_Topology_Pools yas @ [pool]\<rparr>
            else yas))"

text \<open>
  The loop \<open>NextC\<close>; its state is \<open>readyComponent\<close> and the names in \<open>needComponents\<close>.
\<close>

fun rangeComponents ::
  "ReconcilePlatformAdmin \<Rightarrow> PlatformAdmin \<Rightarrow> Component list \<Rightarrow> int \<Rightarrow> string list \<Rightarrow> cluster
     \<Rightarrow> unit go \<times> int \<times> string list \<times> cluster" where
  "rangeComponents r platformAdmin [] readyComponent needComponents c =
     (Ret (), readyComponent, needComponents, c)"
| "rangeComponents r platformAdmin (desireComponent # rest) readyComponent needComponents c =
     (let need = comp_Name desireComponent # needComponents in
      (case handleService r platformAdmin desireComponent c of
         (Some err, c1) \<Rightarrow> (Fail err, readyComponent, need, c1)
       | (None, c1) \<Rightarrow>
           (case apiGet r YurtAppSets (Namespace platformAdmin, comp_Name desireComponent) c1 of
              (Inl err, c2) \<Rightarrow>
                if err \<noteq> NotFound then (Fail err, readyComponent, need, c2)
                else
                  (case handleYurtAppSet r platformAdmin desireComponent c2 of
                     (Ret u, c3) \<Rightarrow> rangeComponents r platformAdmin rest readyComponent need c3
                   | (Fail err', c3) \<Rightarrow> (Fail err', readyComponent, need, c3)
                   | (Panic p, c3) \<Rightarrow> (Panic p, readyComponent, need, c3))
            | (Inr yas, c2) \<Rightarrow>
                if map_of (Status_PoolReplicas yas) (Spec_PoolName platformAdmin) \<noteq> None then
                  rangeComponents r platformAdmin rest
                    (if Status_ReadyReplicas yas = Status_Replicas yas
                     then readyComponent + 1 else readyComponent)
                    need c2
                else
                  (case apiPatch r YurtAppSets (joinPool platformAdmin yas) c2 of
                     (Some err, c3) \<Rightarrow> (Fail err, readyComponent, need, c3)
                   | (None, c3) \<Rightarrow>
                       rangeComponents r platformAdmin rest readyComponent need c3))))"

text \<open>
  \<open>reconcileComponent\<close> returns what it would return, the status as its deferred
  function leaves it, and the cluster.  An error of \<open>annotationToComponent\<close> returns
  before the deferred function is registered.
\<close>

definition reconcileComponent ::
  "ReconcilePlatformAdmin \<Rightarrow> PlatformAdmin \<Rightarrow> PlatformAdminStatus \<Rightarrow> cluster
     \<Rightarrow> bool go \<times> PlatformAdminStatus \<times> cluster" where
  "reconcileComponent r platformAdmin platformAdminStatus c =
     (case desiredComponentsOf r platformAdmin of
        Inl err \<Rightarrow> (Fail err, platformAdminStatus, c)
      | Inr desireComponents \<Rightarrow>
          (case rangeComponents r platformAdmin desireComponents 0 [] c of
             (res, readyComponent, needComponents, c1) \<Rightarrow>
               (let status' = platformAdminStatus
                      \<lparr>ReadyComponentNum := readyComponent,
                       UnreadyComponentNum := int (length desireComponents) - readyComponent\<rparr>
                in (case res of
                      Fail err \<Rightarrow> (Fail err, status', c1)
                    | Panic p \<Rightarrow> (Panic p, status', c1)
                    | Ret u \<Rightarrow>
                        (Ret (readyComponent = int (length desireComponents)), status',
                         collectUnneeded r YurtAppSets platformAdmin LabelDeployment
                           needComponents
                           (collectUnneeded r Services platformAdmin LabelService
                              needComponents c1))))))"

subsection \<open>reconcileDelete\<close>

fun rangeDelete ::
  "ReconcilePlatformAdmin \<Rightarrow> PlatformAdmin \<Rightarrow> Component list \<Rightarrow> cluster
     \<Rightarrow> unit go \<times> cluster" where
  "rangeDelete r platformAdmin [] c = (Ret (), c)"
| "rangeDelete r platformAdmin (dc # rest) c =
     (case apiGet r YurtAppSets (Namespace platformAdmin, comp_Name dc) c of
        (Inl err, c1) \<Rightarrow> rangeDelete r platformAdmin rest c1
      | (Inr yas, c1) \<Rightarrow>
          (case removePool (Spec_PoolName platformAdmin) (Spec_Topology_Pools yas) of
             Inl p \<Rightarrow> (Panic p, c1)
           | Inr pools \<Rightarrow>
               (case apiPatch r YurtAppSets (yas\<lparr>Spec_Topology_Pools := pools\<rparr>) c1 of
                  (Some err, c2) \<Rightarrow> (Fail err, c2)
                | (None, c2) \<Rightarrow> rangeDelete r platformAdmin rest c2)))"

definition reconcileDelete ::
  "ReconcilePlatformAdmin \<Rightarrow> PlatformAdmin \<Rightarrow> cluster \<Rightarrow> Result go \<times> cluster" where
  "reconcileDelete r platformAdmin c =
     (case desiredComponentsOf r platformAdmin of
        Inl err \<Rightarrow> (Fail err, c)
      | Inr desiredComponents \<Rightarrow>
          (case rangeDelete r platformAdmin desiredComponents c of
             (Fail err, c1) \<Rightarrow> (Fail err, c1)
           | (Panic p, c1) \<Rightarrow> (Panic p, c1)
           | (Ret u, c1) \<Rightarrow>
               (case updatePlatformAdmin r
                       (RemoveFinalizer platformAdmin PlatformAdminFinalizer) c1 of
                  (Some err, c2) \<Rightarrow> (Fail err, c2)
                | (None, c2) \<Rightarrow> (Ret Result_zero, c2))))"

subsection \<open>reconcileNormal\<close>

definition reconcileNormal ::
  "ReconcilePlatformAdmin \<Rightarrow> PlatformAdmin \<Rightarrow> PlatformAdminStatus \<Rightarrow> cluster
     \<Rightarrow> Result go \<times> PlatformAdminStatus \<times> cluster" where
  "reconcileNormal r platformAdmin0 platformAdminStatus c =
     (let platformAdmin1 = AddFinalizer platformAdmin0 PlatformAdminFinalizer;
          platformAdmin = platformAdmin1\<lparr>Status := (Status platformAdmin1)\<lparr>Initialized := True\<rparr>\<rparr>
      in (case reconcileConfigmap r platformAdmin c of
            (Panic p, c1) \<Rightarrow> (Panic p, platformAdminStatus, c1)
          | (Fail err, c1) \<Rightarrow>
              (Fail (Wrapf (''unexpected error while reconciling configmap for '' @
                             Namespace platformAdmin @ ''/'' @ Name platformAdmin) err),
               SetPlatformAdminCondition platformAdminStatus
                 (NewPlatformAdminCondition ConfigmapAvailableCondition False
                    ConfigmapProvisioningFailedReason (Error_text err)),
               c1)
          | (Ret False, c1) \<Rightarrow>
              (Ret \<lparr>Requeue = False, RequeueAfter = 10\<rparr>,
               SetPlatformAdminCondition platformAdminStatus
                 (NewPlatformAdminCondition ConfigmapAvailableCondition False
                    ConfigmapProvisioningReason []),
               c1)
          | (Ret True, c1) \<Rightarrow>
              (let status1 = SetPlatformAdminCondition platformAdminStatus
                      (NewPlatformAdminCondition ConfigmapAvailableCondition True [] [])
               in (case reconcileComponent r platformAdmin status1 c1 of
                     (Panic p, status2, c2) \<Rightarrow> (Panic p, status2, c2)
                   | (Fail err, status2, c2) \<Rightarrow>
                       (Fail (Wrapf (''unexpected error while reconciling component for '' @
                                      Namespace platformAdmin @ ''/'' @ Name platformAdmin) err),
                        SetPlatformAdminCondition status2
                          (NewPlatformAdminCondition ComponentAvailableCondition False
                             ComponentProvisioningReason (Error_text err)),
                        c2)
                   | (Ret False, status2, c2) \<Rightarrow>
                       (Ret \<lparr>Requeue = False, RequeueAfter = 10\<rparr>,
                        SetPlatformAdminCondition status2
                          (NewPlatformAdminCondition ComponentAvailableCondition False
                             ComponentProvisioningReason []),
                        c2)
                   | (Ret True, status2, c2) \<Rightarrow>
                       (let status3 = (SetPlatformAdminCondition status2
                               (NewPlatformAdminCondition ComponentAvailableCondition True
                                  [] []))\<lparr>Ready := True\<rparr>
                        in (case updatePlatformAdmin r platformAdmin c2 of
                              (Some err, c3) \<Rightarrow> (Fail err, status3, c3)
                            | (None, c3) \<Rightarrow> (Ret Result_zero, status3, c3)))))))"

subsection \<open>Reconcile\<close>

text \<open>
  The deferred function of \<open>Reconcile\<close>: unless \<open>isDeleted\<close> is set it writes the
  working copy of the status into the parent and calls \<open>r.Status().Update\<close>; a failure
  is aggregated with the error being returned (\<open>NewAggregate\<close> drops a nil error).  It
  runs on a panic too, which then goes on unwinding.
\<close>

definition deferredStatusUpdate ::
  "ReconcilePlatformAdmin \<Rightarrow> PlatformAdmin \<Rightarrow> Result go \<times> PlatformAdminStatus \<times> cluster
     \<Rightarrow> Result go \<times> cluster" where
  "deferredStatusUpdate r platformAdmin out =
     (case out of
        (res, platformAdminStatus, c) \<Rightarrow>
          (case statusUpdate r (platformAdmin\<lparr>Status := platformAdminStatus\<rparr>) c of
             (None, c') \<Rightarrow> (res, c')
           | (Some err, c') \<Rightarrow>
               (case res of
                  Ret result \<Rightarrow> (Fail (Aggregate [err]), c')
                | Fail reterr \<Rightarrow> (Fail (Aggregate [reterr, err]), c')
                | Panic p \<Rightarrow> (Panic p, c'))))"

definition Reconcile ::
  "ReconcilePlatformAdmin \<Rightarrow> key \<Rightarrow> cluster \<Rightarrow> Result go \<times> cluster" where
  "Reconcile r request c =
     (case apiGet r PlatformAdmins request c of
        (Inl err, c1) \<Rightarrow>
          if err = NotFound then (Ret Result_zero, c1) else (Fail err, c1)
      | (Inr platformAdmin, c1) \<Rightarrow>
          if DeletionTimestamp platformAdmin \<noteq> None
          then reconcileDelete r platformAdmin c1
          else deferredStatusUpdate r platformAdmin
                 (reconcileNormal r platformAdmin (Status platformAdmin) c1))"

section \<open>Well-behaved stores\<close>

text \<open>
  A resource is lawful when storing its objects and reading them back gives what was
  stored and leaves the record of calls alone, and when its objects do not depend on
  the record of calls; the four resources of the cluster are.
\<close>

definition lawful :: "'a resource \<Rightarrow> bool" where
  "lawful R \<longleftrightarrow>
     (\<forall>xs c. res_objects R (res_store R xs c) = xs \<and> calls (res_store R xs c) = calls c) \<and>
     (\<forall>l c. res_objects R (c\<lparr>calls := l\<rparr>) = res_objects R c)"

text \<open>The calls a run has added to the record of a cluster.\<close>

definition issued :: "cluster \<Rightarrow> cluster \<Rightarrow> (call \<times> error option) list" where
  "issued c c' = drop (length (calls c)) (calls c')"

text \<open>A store is keyed when every object is stored under its own namespace and name.\<close>

definition keyed :: "(key \<times> 'a ObjectMeta_scheme) list \<Rightarrow> bool" where
  "keyed xs \<longleftrightarrow> list_all (\<lambda>(k, obj). objKey obj = k) xs"

text \<open>
  The calls of a complete membership removal over the workload-sets named \<open>names\<close>:
  for each name in turn a \<open>Get\<close> of the workload-set which either fails, or succeeds
  and is followed by a successful \<open>Patch\<close> of that workload-set.
\<close>

fun removalTrace :: "string \<Rightarrow> string list \<Rightarrow> (call \<times> error option) list \<Rightarrow> bool" where
  "removalTrace ns [] tr = (tr = [])"
| "removalTrace ns (n # names) [] = False"
| "removalTrace ns (n # names) ((g, Some err) # tr) =
     (g = (VGet, KYurtAppSet, (ns, n)) \<and> removalTrace ns names tr)"
| "removalTrace ns (n # names) [(g, None)] = False"
| "removalTrace ns (n # names) ((g, None) # (p, res) # tr) =
     (g = (VGet, KYurtAppSet, (ns, n)) \<and> p = (VPatch, KYurtAppSet, (ns, n)) \<and> res = None \<and>
      removalTrace ns names tr)"

text \<open>Whether the workload-set stored under a key, if any, lists a pool of that name.\<close>

definition listsPool :: "cluster \<Rightarrow> key \<Rightarrow> string \<Rightarrow> bool" where
  "listsPool c k poolName =
     (case map_of (store_yurtappsets c) k of
        None \<Rightarrow> False
      | Some yas \<Rightarrow> poolName \<in> pool_Name ` set (Spec_Topology_Pools yas))"

text \<open>A store is well keyed when it is keyed and holds one object per key.\<close>

definition wellKeyed :: "(key \<times> 'a ObjectMeta_scheme) list \<Rightarrow> bool" where
  "wellKeyed xs \<longleftrightarrow> distinct (map fst xs) \<and> keyed xs"

text \<open>
  An object of the parent's namespace that carries the generated-by label with the
  given value: what the listings of the collector select.
\<close>

definition generatedBy :: "PlatformAdmin \<Rightarrow> string \<Rightarrow> 'a ObjectMeta_scheme \<Rightarrow> bool" where
  "generatedBy platformAdmin label obj \<longleftrightarrow>
     Namespace obj = Namespace platformAdmin \<and>
     map_of (Labels obj) LabelPlatformAdminGenerate = Some label"

text \<open>A client that never fails to list, delete or update objects of a kind.\<close>

definition collects :: "ReconcilePlatformAdmin \<Rightarrow> kind \<Rightarrow> bool" where
  "collects r kd \<longleftrightarrow>
     (\<forall>n k. Client r n (VList, kd, k) = None \<and> Client r n (VDelete, kd, k) = None \<and>
            Client r n (VUpdate, kd, k) = None)"

text \<open>
  What is stored for an object once the first owner reference at index \<open>i\<close> has been
  swapped out of its list: nothing when no reference is left.
\<close>

definition withoutOwnerAt :: "nat \<Rightarrow> 'a ObjectMeta_scheme \<Rightarrow> 'a ObjectMeta_scheme option" where
  "withoutOwnerAt i obj =
     (let owners = OwnerReferences obj;
          owners' = take (length owners - 1) (owners[i := owners ! (length owners - 1)])
      in if owners' = [] then None else Some (obj\<lparr>OwnerReferences := owners'\<rparr>))"

section \<open>An example deployment\<close>

text \<open>
  Concrete inputs on which the properties below are exercised: pools of a
  workload-set, annotation payloads, and a small cluster with one parent.
\<close>

definition pool_of :: "string \<Rightarrow> Pool" where
  "pool_of n =
     \<lparr>pool_Name = n, pool_Replicas = Some 1,
      pool_MatchExpressions = [(LabelCurrentNodePool, ''In'', [n])]\<rparr>"

text \<open>
  The example runtime decodes five payloads: \<open>one-deployment\<close> and \<open>one-service\<close>
  each hold one template named \<open>extra-svc\<close>; \<open>two-deployments\<close> and
  \<open>extra-and-other\<close> hold a template named \<open>extra-svc\<close> followed by one named
  \<open>other\<close>, of workloads and of exposures; \<open>two-services\<close> holds two exposure
  templates \<open>a\<close> and \<open>b\<close>.  Anything else is malformed.
\<close>

definition example_runtime :: go_runtime where
  "example_runtime =
     \<lparr>json_deployments =
        (\<lambda>s. if s = ''one-deployment''
              then Inr [\<lparr>dt_Name = ''extra-svc'', dt_Spec = DeploymentSpec ''extra-workload''\<rparr>]
              else if s = ''two-deployments''
              then Inr [\<lparr>dt_Name = ''extra-svc'', dt_Spec = DeploymentSpec ''extra-workload''\<rparr>,
                        \<lparr>dt_Name = ''other'', dt_Spec = DeploymentSpec ''other-workload''\<rparr>]
              else Inl ''invalid character''),
      json_services =
        (\<lambda>s. if s = ''one-service''
              then Inr [\<lparr>st_Name = ''extra-svc'', st_Spec = ServiceSpec ''extra-exposure''\<rparr>]
              else if s = ''two-services''
              then Inr [\<lparr>st_Name = ''a'', st_Spec = ServiceSpec ''spec-a''\<rparr>,
                        \<lparr>st_Name = ''b'', st_Spec = ServiceSpec ''spec-b''\<rparr>]
              else if s = ''extra-and-other''
              then Inr [\<lparr>st_Name = ''extra-svc'', st_Spec = ServiceSpec ''extra-exposure''\<rparr>,
                        \<lparr>st_Name = ''other'', st_Spec = ServiceSpec ''other-exposure''\<rparr>]
              else Inl ''invalid character''),
      map_order = (\<lambda>names. names)\<rparr>"

text \<open>
  The example catalog has one component \<open>foo\<close> with an exposure and a workload for
  version \<open>v1\<close> of the security-enabled deployments, and one config object.
\<close>

definition foo :: Component where
  "foo = \<lparr>comp_Name = ''foo'', comp_Service = Some (ServiceSpec ''foo-exposure''),
          comp_Deployment = Some (DeploymentSpec ''foo-workload'')\<rparr>"

definition common_variables :: ConfigMap where
  "common_variables =
     \<lparr>Name = ''common-variables'', Namespace = [], UID = [], Labels = [], Annotations = [],
      OwnerReferences = [], Finalizers = [], DeletionTimestamp = None,
      Data = [(''EDGEX_SECURITY_SECRET_STORE'', ''false'')]\<rparr>"

definition example_config :: PlatformAdminControllerConfiguration where
  "example_config =
     \<lparr>SecurityComponents = [(''v1'', [foo])], NoSectyComponents = [],
      SecurityConfigMaps = [(''v1'', [common_variables])], NoSectyConfigMaps = []\<rparr>"

text \<open>A client that never fails, and one whose every \<open>Get\<close> of a workload-set fails.\<close>

definition example_reconciler :: ReconcilePlatformAdmin where
  "example_reconciler =
     \<lparr>Configration = example_config, runtime = example_runtime, Client = (\<lambda>n cl. None)\<rparr>"

definition flaky_reconciler :: ReconcilePlatformAdmin where
  "flaky_reconciler =
     \<lparr>Configration = example_config, runtime = example_runtime,
      Client = (\<lambda>n cl. if fst cl = VGet \<and> fst (snd cl) = KYurtAppSet
                        then Some ''connection refused'' else None)\<rparr>"

definition empty_status :: PlatformAdminStatus where
  "empty_status =
     \<lparr>Ready = False, Initialized = False, ReadyComponentNum = 0, UnreadyComponentNum = 0,
      Conditions = []\<rparr>"

definition edgex :: PlatformAdmin where
  "edgex =
     \<lparr>Name = ''edgex'', Namespace = ''default'', UID = ''uid-edgex'', Labels = [],
      Annotations = [], OwnerReferences = [], Finalizers = [], DeletionTimestamp = None,
      Spec_Security = True, Spec_Version = ''v1'', Spec_PoolName = ''hangzhou'',
      Status = empty_status\<rparr>"

text \<open>The same parent once its deletion has been requested.\<close>

definition edgex_deleting :: PlatformAdmin where
  "edgex_deleting =
     edgex\<lparr>Finalizers := [PlatformAdminFinalizer], DeletionTimestamp := Some 1\<rparr>"

text \<open>The workload-set \<open>foo\<close> as \<open>handleYurtAppSet\<close> creates it for the parent.\<close>

definition foo_yas :: YurtAppSet where
  "foo_yas =
     \<lparr>Name = ''foo'', Namespace = ''default'', UID = [],
      Labels = [(LabelPlatformAdminGenerate, LabelDeployment)],
      Annotations = [], OwnerReferences = [ownerRefOf edgex (Some True)], Finalizers = [],
      DeletionTimestamp = None,
      Spec_Selector = [(''app'', ''foo'')],
      Spec_WorkloadTemplate = ([(''app'', ''foo'')], DeploymentSpec ''foo-workload''),
      Spec_Topology_Pools = [pool_of ''hangzhou''],
      Status_PoolReplicas = [], Status_ReadyReplicas = 0, Status_Replicas = 0\<rparr>"

definition fresh_cluster :: cluster where
  "fresh_cluster =
     \<lparr>store_platformadmins = [((''default'', ''edgex''), edgex)], store_configmaps = [],
      store_services = [], store_yurtappsets = [], calls = []\<rparr>"

definition deleting_cluster :: cluster where
  "deleting_cluster =
     \<lparr>store_platformadmins = [((''default'', ''edgex''), edgex_deleting)],
      store_configmaps = [], store_services = [],
      store_yurtappsets = [((''default'', ''foo''), foo_yas)], calls = []\<rparr>"

text \<open>A component with an exposure and no workload.\<close>

definition exposure_only :: Component where
  "exposure_only = \<lparr>comp_Name = ''gateway'', comp_Service = Some (ServiceSpec ''gateway-exposure''),
                     comp_Deployment = None\<rparr>"

text \<open>
  A cluster with leftovers of an earlier catalog: an exposure and a workload-set owned
  by the parent alone, a config object that another owner shares, and the config
  object \<open>common-variables\<close> of the current catalog as a pass leaves it.
\<close>

definition other_owner :: OwnerReference where
  "other_owner =
     \<lparr>ref_APIVersion = ''v1'', ref_Kind = ''ConfigMap'', ref_Name = ''umbrella'',
      ref_UID = ''uid-umbrella'', ref_Controller = None, ref_BlockOwnerDeletion = None\<rparr>"

definition old_service :: Service where
  "old_service =
     \<lparr>Name = ''old'', Namespace = ''default'', UID = [],
      Labels = [(LabelPlatformAdminGenerate, LabelService)], Annotations = [],
      OwnerReferences = [ownerRefOf edgex None], Finalizers = [], DeletionTimestamp = None,
      Service_Spec = ServiceSpec ''old-exposure''\<rparr>"

definition old_yas :: YurtAppSet where
  "old_yas =
     \<lparr>Name = ''old'', Namespace = ''default'', UID = [],
      Labels = [(LabelPlatformAdminGenerate, LabelDeployment)], Annotations = [],
      OwnerReferences = [ownerRefOf edgex (Some True)], Finalizers = [],
      DeletionTimestamp = None,
      Spec_Selector = [(''app'', ''old'')],
      Spec_WorkloadTemplate = ([(''app'', ''old'')], DeploymentSpec ''old-workload''),
      Spec_Topology_Pools = [pool_of ''hangzhou''],
      Status_PoolReplicas = [], Status_ReadyReplicas = 0, Status_Replicas = 0\<rparr>"

definition old_config :: ConfigMap where
  "old_config =
     \<lparr>Name = ''old-variables'', Namespace = ''default'', UID = [],
      Labels = [(LabelPlatformAdminGenerate, LabelConfigmap)], Annotations = [],
      OwnerReferences = [ownerRefOf edgex None, other_owner], Finalizers = [],
      DeletionTimestamp = None, Data = []\<rparr>"

definition current_config :: ConfigMap where
  "current_config =
     \<lparr>Name = ''common-variables'', Namespace = ''default'', UID = [],
      Labels = [(LabelPlatformAdminGenerate, LabelConfigmap)], Annotations = [],
      OwnerReferences = [ownerRefOf edgex None], Finalizers = [], DeletionTimestamp = None,
      Data = [(''EDGEX_SECURITY_SECRET_STORE'', ''false'')]\<rparr>"

definition stale_cluster :: cluster where
  "stale_cluster =
     \<lparr>store_platformadmins = [((''default'', ''edgex''), edgex)],
      store_configmaps = [((''default'', ''old-variables''), old_config),
                          ((''default'', ''common-variables''), current_config)],
      store_services = [((''default'', ''old''), old_service)],
      store_yurtappsets = [((''default'', ''old''), old_yas)], calls = []\<rparr>"

text \<open>
  Two clusters of the live parent in which the workload-set \<open>foo\<close> is stored and lists
  the pool: in \<open>joined_cluster\<close> its status does not report the pool yet, in
  \<open>running_cluster\<close> it does.
\<close>

definition joined_cluster :: cluster where
  "joined_cluster = fresh_cluster\<lparr>store_yurtappsets := [((''default'', ''foo''), foo_yas)]\<rparr>"

definition running_cluster :: cluster where
  "running_cluster =
     fresh_cluster\<lparr>store_yurtappsets :=
       [((''default'', ''foo''),
         foo_yas\<lparr>Status_PoolReplicas := [(''hangzhou'', 1)], Status_ReadyReplicas := 1,
                 Status_Replicas := 1\<rparr>)]\<rparr>"

section \<open>Removing a pool leaves the other pools alone\<close>

lemma swap_last_mset:
  assumes "i < l" "l \<le> length b"
  shows "add_mset (b ! i) (mset (take (l - 1) (b[i := b ! (l - 1)]))) = mset (take l b)"
proof -
  from assms obtain k where k: "l = Suc k" by (cases l) auto
  with assms have kb: "k < length b" and ik: "i \<le> k" by auto
  have t: "take l b = take k b @ [b ! k]"
    using kb k by (simp add: take_Suc_conv_app_nth)
  show ?thesis
  proof (cases "i = k")
    case True
    then show ?thesis using t k by simp
  next
    case False
    with ik have "i < k" by simp
    then have "i < length (take k b)" using kb by simp
    then have "mset ((take k b)[i := b ! k]) = add_mset (b ! k) (mset (take k b) - {#take k b ! i#})"
      by (rule mset_update)
    moreover have "take k b ! i = b ! i" using \<open>i < k\<close> by simp
    moreover have "b ! i \<in># mset (take k b)"
      using \<open>i < length (take k b)\<close> \<open>take k b ! i = b ! i\<close> by (metis nth_mem_mset)
    ultimately show ?thesis using t k by (simp add: take_update_swap)
  qed
qed

lemma rangePools_keep:
  "rangePools P i b l = Inr res \<Longrightarrow> l \<le> length b \<Longrightarrow>
   mset (filter (\<lambda>p. pool_Name p \<noteq> P) res) = mset (filter (\<lambda>p. pool_Name p \<noteq> P) (take l b))"
proof (induction P i b l arbitrary: res rule: rangePools.induct)
  case (1 P i b l)
  show ?case
  proof (cases "i < length b")
    case False
    with "1.prems" show ?thesis by (simp add: rangePools.simps[of P i b l])
  next
    case ib: True
    show ?thesis
    proof (cases "pool_Name (b ! i) = P")
      case False
      with ib "1.prems" have "rangePools P (Suc i) b l = Inr res"
        by (simp add: rangePools.simps[of P i b l])
      with "1.IH"(2)[OF ib False] "1.prems" show ?thesis by simp
    next
      case m: True
      show ?thesis
      proof (cases "i < l")
        case False
        with ib m "1.prems" show ?thesis by (simp add: rangePools.simps[of P i b l])
      next
        case il: True
        with ib m "1.prems" have r: "rangePools P (Suc i) (b[i := b ! (l - 1)]) (l - 1) = Inr res"
          by (simp add: rangePools.simps[of P i b l])
        have a: "mset (filter (\<lambda>p. pool_Name p \<noteq> P) res) =
              mset (filter (\<lambda>p. pool_Name p \<noteq> P) (take (l - 1) (b[i := b ! (l - 1)])))"
          using "1.IH"(1)[OF ib m il r] "1.prems" by simp
        have "filter_mset (\<lambda>p. pool_Name p \<noteq> P)
                (add_mset (b ! i) (mset (take (l - 1) (b[i := b ! (l - 1)]))))
              = filter_mset (\<lambda>p. pool_Name p \<noteq> P) (mset (take l b))"
          using swap_last_mset[OF il "1.prems"(2)] by simp
        with m a show ?thesis by simp
      qed
    qed
  qed
qed

text \<open>A matching entry that the loop will only meet beyond the current length panics.\<close>

lemma rangePools_doom:
  "\<exists>j. i \<le> j \<and> l \<le> j \<and> j < length b \<and> pool_Name (b ! j) = P \<Longrightarrow>
   rangePools P i b l = Inl IndexOutOfRange"
proof (induction P i b l rule: rangePools.induct)
  case (1 P i b l)
  from "1.prems" obtain j where j: "i \<le> j" "l \<le> j" "j < length b" "pool_Name (b ! j) = P"
    by blast
  then have ib: "i < length b" by simp
  show ?case
  proof (cases "pool_Name (b ! i) = P")
    case False
    with j have "Suc i \<le> j" by (cases "i = j") auto
    with j have "\<exists>j. Suc i \<le> j \<and> l \<le> j \<and> j < length b \<and> pool_Name (b ! j) = P" by blast
    from "1.IH"(2)[OF ib False this] ib False show ?thesis
      by (simp add: rangePools.simps[of P i b l])
  next
    case True
    show ?thesis
    proof (cases "i < l")
      case False
      with ib True show ?thesis by (simp add: rangePools.simps[of P i b l])
    next
      case il: True
      with j have "Suc i \<le> j" "l - 1 \<le> j" "j < length (b[i := b ! (l - 1)])"
        "pool_Name (b[i := b ! (l - 1)] ! j) = P" by auto
      then have "\<exists>j. Suc i \<le> j \<and> l - 1 \<le> j \<and> j < length (b[i := b ! (l - 1)]) \<and>
                   pool_Name (b[i := b ! (l - 1)] ! j) = P" by blast
      from "1.IH"(1)[OF ib True il this] ib True il show ?thesis
        by (simp add: rangePools.simps[of P i b l])
    qed
  qed
qed

lemma rangePools_clean:
  "rangePools P i b l = Inr res \<Longrightarrow> l \<le> length b \<Longrightarrow>
   (\<forall>j. j < i \<and> j < l \<longrightarrow> pool_Name (b ! j) \<noteq> P) \<Longrightarrow>
   P \<notin> pool_Name ` set res"
proof (induction P i b l arbitrary: res rule: rangePools.induct)
  case (1 P i b l)
  show ?case
  proof (cases "i < length b")
    case False
    with "1.prems" have res: "res = take l b" by (simp add: rangePools.simps[of P i b l])
    have "\<forall>j < length (take l b). pool_Name (take l b ! j) \<noteq> P"
      using "1.prems"(2,3) False by simp
    then show ?thesis unfolding res by (metis imageE in_set_conv_nth)
  next
    case ib: True
    show ?thesis
    proof (cases "pool_Name (b ! i) = P")
      case False
      with ib "1.prems" have r: "rangePools P (Suc i) b l = Inr res"
        by (simp add: rangePools.simps[of P i b l])
      have "\<forall>j. j < Suc i \<and> j < l \<longrightarrow> pool_Name (b ! j) \<noteq> P"
        using "1.prems"(3) False by (auto simp: less_Suc_eq)
      from "1.IH"(2)[OF ib False r "1.prems"(2) this] show ?thesis .
    next
      case m: True
      show ?thesis
      proof (cases "i < l")
        case False
        with ib m "1.prems" show ?thesis by (simp add: rangePools.simps[of P i b l])
      next
        case il: True
        let ?b = "b[i := b ! (l - 1)]"
        from ib m il "1.prems" have r: "rangePools P (Suc i) ?b (l - 1) = Inr res"
          by (simp add: rangePools.simps[of P i b l])
        have len: "l - 1 \<le> length ?b" using "1.prems"(2) by simp
        have "\<forall>j. j < Suc i \<and> j < l - 1 \<longrightarrow> pool_Name (?b ! j) \<noteq> P"
        proof (intro allI impI)
          fix j assume j: "j < Suc i \<and> j < l - 1"
          show "pool_Name (?b ! j) \<noteq> P"
          proof (cases "j = i")
            case False
            with j "1.prems"(3) il show ?thesis by simp
          next
            case True
            show ?thesis
            proof
              assume p: "pool_Name (?b ! j) = P"
              with True ib have "pool_Name (b ! (l - 1)) = P" by simp
              moreover have "Suc i \<le> l - 1" "l - 1 < length ?b" "?b ! (l - 1) = b ! (l - 1)"
                using j True "1.prems"(2) il by auto
              ultimately have
                "\<exists>k. Suc i \<le> k \<and> l - 1 \<le> k \<and> k < length ?b \<and> pool_Name (?b ! k) = P"
                by (intro exI[of _ "l - 1"]) simp
              from rangePools_doom[OF this] r show False by simp
            qed
          qed
        qed
        from "1.IH"(1)[OF ib m il r len this] show ?thesis .
      qed
    qed
  qed
qed

lemma rangePools_none:
  "\<forall>j. i \<le> j \<and> j < length b \<longrightarrow> pool_Name (b ! j) \<noteq> P \<Longrightarrow>
   rangePools P i b l = Inr (take l b)"
proof (induction P i b l rule: rangePools.induct)
  case (1 P i b l)
  show ?case
  proof (cases "i < length b")
    case False
    then show ?thesis by (simp add: rangePools.simps[of P i b l])
  next
    case True
    with "1.prems" have n: "pool_Name (b ! i) \<noteq> P" by simp
    have "rangePools P (Suc i) b l = Inr (take l b)"
      using "1.IH"(2)[OF True n] "1.prems" by simp
    with True n show ?thesis by (simp add: rangePools.simps[of P i b l])
  qed
qed

lemma rangePools_distinct:
  "distinct (map pool_Name b) \<Longrightarrow> l = length b \<Longrightarrow> \<exists>res. rangePools P i b l = Inr res"
proof (induction P i b l rule: rangePools.induct)
  case (1 P i b l)
  show ?case
  proof (cases "i < length b")
    case False
    then show ?thesis by (simp add: rangePools.simps[of P i b l])
  next
    case ib: True
    show ?thesis
    proof (cases "pool_Name (b ! i) = P")
      case False
      with ib "1.IH"(2)[OF ib False] "1.prems" show ?thesis
        by (simp add: rangePools.simps[of P i b l])
    next
      case True
      have il: "i < l" using ib "1.prems" by simp
      have "\<forall>j. Suc i \<le> j \<and> j < length (b[i := b ! (l - 1)]) \<longrightarrow>
                pool_Name (b[i := b ! (l - 1)] ! j) \<noteq> P"
      proof (intro allI impI)
        fix j assume j: "Suc i \<le> j \<and> j < length (b[i := b ! (l - 1)])"
        then have "j < length b" "i \<noteq> j" by auto
        with "1.prems"(1) ib True have "pool_Name (b ! j) \<noteq> P"
          by (metis distinct_conv_nth length_map nth_map)
        with j show "pool_Name (b[i := b ! (l - 1)] ! j) \<noteq> P" by simp
      qed
      from rangePools_none[OF this]
      have "rangePools P (Suc i) (b[i := b ! (l - 1)]) (l - 1) =
              Inr (take (l - 1) (b[i := b ! (l - 1)]))" .
      with ib True il show ?thesis by (simp add: rangePools.simps[of P i b l])
    qed
  qed
qed

text \<open>
  C9.  Removing the parent's pool from a workload-set on deletion keeps every entry
  of another pool name, each exactly as it was and as often as it occurred; only the
  order may change.  No entry of the parent's pool name is left.  The removal goes
  through (it does not panic) whenever the pool names of the workload-set are distinct.
\<close>

theorem removePool_keeps_other_pools:
  "(distinct (map pool_Name pools) \<longrightarrow> (\<exists>res. removePool poolName pools = Inr res)) \<and>
   (\<forall>res. removePool poolName pools = Inr res \<longrightarrow>
      mset (filter (\<lambda>p. pool_Name p \<noteq> poolName) res) =
        mset (filter (\<lambda>p. pool_Name p \<noteq> poolName) pools) \<and>
      poolName \<notin> pool_Name ` set res)"
proof (intro conjI allI impI)
  assume "distinct (map pool_Name pools)"
  then show "\<exists>res. removePool poolName pools = Inr res"
    unfolding removePool_def by (rule rangePools_distinct) simp
next
  fix res assume r: "removePool poolName pools = Inr res"
  then show "mset (filter (\<lambda>p. pool_Name p \<noteq> poolName) res) =
        mset (filter (\<lambda>p. pool_Name p \<noteq> poolName) pools)"
    unfolding removePool_def using rangePools_keep[of poolName 0 pools "length pools" res]
    by simp
  from r show "poolName \<notin> pool_Name ` set res"
    unfolding removePool_def using rangePools_clean[of poolName 0 pools "length pools" res]
    by simp
qed

theorem removePool_keeps_other_pools_witness:
  "distinct (map pool_Name [pool_of ''beijing'', pool_of ''hangzhou'', pool_of ''shanghai'']) \<and>
   removePool ''hangzhou'' [pool_of ''beijing'', pool_of ''hangzhou'', pool_of ''shanghai'']
     = Inr [pool_of ''beijing'', pool_of ''shanghai''] \<and>
   mset (filter (\<lambda>p. pool_Name p \<noteq> ''hangzhou'') [pool_of ''beijing'', pool_of ''shanghai'']) =
     mset (filter (\<lambda>p. pool_Name p \<noteq> ''hangzhou'')
             [pool_of ''beijing'', pool_of ''hangzhou'', pool_of ''shanghai'']) \<and>
   ''hangzhou'' \<notin> pool_Name ` set [pool_of ''beijing'', pool_of ''shanghai'']"
proof -
  have e: "removePool ''hangzhou'' [pool_of ''beijing'', pool_of ''hangzhou'', pool_of ''shanghai'']
             = Inr [pool_of ''beijing'', pool_of ''shanghai'']"
    by (simp add: removePool_def pool_of_def)
  have d: "distinct (map pool_Name [pool_of ''beijing'', pool_of ''hangzhou'', pool_of ''shanghai''])"
    by (simp add: pool_of_def)
  from removePool_keeps_other_pools
         [of "[pool_of ''beijing'', pool_of ''hangzhou'', pool_of ''shanghai'']" "''hangzhou''"]
       e d
  show ?thesis by blast
qed

section \<open>Components from the annotations\<close>

text \<open>
  When each payload holds a single template and the two share the name \<open>N\<close>, the
  resolver returns the one component \<open>N\<close> with the specs of the two templates.
\<close>

lemma annotationToComponent_single_templates:
  assumes "map_of annotation ''AdditionalDeployments'' = Some ds"
      and "json_deployments rt ds = Inr [\<lparr>dt_Name = N, dt_Spec = d\<rparr>]"
      and "map_of annotation ''AdditionalServices'' = Some ss"
      and "json_services rt ss = Inr [\<lparr>st_Name = N, st_Spec = s\<rparr>]"
  shows "annotationToComponent rt annotation =
           Inr [\<lparr>comp_Name = N, comp_Service = Some s, comp_Deployment = Some d\<rparr>]"
  using assms
  by (simp add: annotationToComponent_def unmarshalDeployments_def unmarshalServices_def
        mergeAdditional_def zero_frame_def deref_def)

text \<open>
  C6.  The claim fails as soon as a payload holds a second template.  With one
  additional deployment template \<open>extra-svc\<close> and the additional service templates
  \<open>extra-svc\<close> and \<open>other\<close>, exactly one template of each kind is named
  \<open>extra-svc\<close>; the resolver returns one component of that name with both fields
  set, but the service spec it carries is the one of \<open>other\<close>, not the one of the
  template \<open>extra-svc\<close>.  With two deployment templates and one service template it
  is the deployment spec that comes from the template \<open>other\<close>.
\<close>

theorem annotationToComponent_merge_foreign_spec:
  "annotationToComponent example_runtime
     [(''AdditionalDeployments'', ''one-deployment''),
      (''AdditionalServices'', ''extra-and-other'')] =
     Inr [\<lparr>comp_Name = ''extra-svc'', comp_Service = Some (ServiceSpec ''other-exposure''),
           comp_Deployment = Some (DeploymentSpec ''extra-workload'')\<rparr>,
          \<lparr>comp_Name = ''other'', comp_Service = Some (ServiceSpec ''other-exposure''),
           comp_Deployment = None\<rparr>] \<and>
   annotationToComponent example_runtime
     [(''AdditionalDeployments'', ''two-deployments''),
      (''AdditionalServices'', ''one-service'')] =
     Inr [\<lparr>comp_Name = ''extra-svc'', comp_Service = Some (ServiceSpec ''extra-exposure''),
           comp_Deployment = Some (DeploymentSpec ''other-workload'')\<rparr>,
          \<lparr>comp_Name = ''other'', comp_Service = None,
           comp_Deployment = Some (DeploymentSpec ''other-workload'')\<rparr>]"
  by code_simp

text \<open>
  All pointers into the range variable of the service loop read the template the loop
  ended on.
\<close>

lemma rangeServices_frame:
  "rangeServices xs fr services = (fr', services') \<Longrightarrow>
   additionalservice fr' = (if xs = [] then additionalservice fr else last xs)"
  by (induction xs arbitrary: fr services) (auto simp: Let_def)

text \<open>
  C7.  Two additional service templates \<open>a\<close> and \<open>b\<close> with different specs and no
  additional deployment: the resolver returns a component for each name, and both
  carry the spec of \<open>b\<close>, the template the loop over the services ended on.  The
  component named \<open>a\<close> does not carry the spec of its own template.
\<close>

theorem annotationToComponent_two_services:
  "annotationToComponent example_runtime [(''AdditionalServices'', ''two-services'')] =
     Inr [\<lparr>comp_Name = ''a'', comp_Service = Some (ServiceSpec ''spec-b''),
           comp_Deployment = None\<rparr>,
          \<lparr>comp_Name = ''b'', comp_Service = Some (ServiceSpec ''spec-b''),
           comp_Deployment = None\<rparr>]"
  by (simp add: annotationToComponent_def unmarshalDeployments_def unmarshalServices_def
        mergeAdditional_def zero_frame_def deref_def example_runtime_def)

section \<open>Joining a pool\<close>

lemma firstIndex_Some:
  "firstIndex P xs = Some i \<longleftrightarrow> i < length xs \<and> P (xs ! i) \<and> (\<forall>j<i. \<not> P (xs ! j))"
proof (induction xs arbitrary: i)
  case Nil
  then show ?case by simp
next
  case (Cons x xs)
  show ?case
  proof (cases "P x")
    case True
    then show ?thesis by (cases i) auto
  next
    case False
    show ?thesis
    proof (cases i)
      case 0
      with False show ?thesis by auto
    next
      case (Suc k)
      with False Cons.IH[of k] show ?thesis
        by (auto simp: less_Suc_eq_0_disj)
    qed
  qed
qed

lemma firstIndex_None: "firstIndex P xs = None \<longleftrightarrow> (\<forall>x\<in>set xs. \<not> P x)"
  by (induction xs) auto

lemma referSameObject_refl: "referSameObject a a"
  by (simp add: referSameObject_def)

lemma upsert_owners_idem:
  "OwnerReferences (upsertOwnerRef ref (upsertOwnerRef ref obj)) = OwnerReferences (upsertOwnerRef ref obj)"
proof (cases "firstIndex (\<lambda>owner. referSameObject owner ref) (OwnerReferences obj)")
  case None
  then have n: "\<forall>x\<in>set (OwnerReferences obj). \<not> referSameObject x ref"
    by (simp add: firstIndex_None)
  have "firstIndex (\<lambda>owner. referSameObject owner ref) (OwnerReferences obj @ [ref]) =
          Some (length (OwnerReferences obj))"
    using n by (auto simp: firstIndex_Some referSameObject_refl nth_append)
  with None show ?thesis by (simp add: upsertOwnerRef_def)
next
  case (Some i)
  then have i: "i < length (OwnerReferences obj)"
    and b: "\<forall>j<i. \<not> referSameObject (OwnerReferences obj ! j) ref"
    by (auto simp: firstIndex_Some)
  have "firstIndex (\<lambda>owner. referSameObject owner ref) ((OwnerReferences obj)[i := ref]) = Some i"
    using i b by (auto simp: firstIndex_Some referSameObject_refl)
  with Some show ?thesis by (simp add: upsertOwnerRef_def)
qed

lemma upsertOwnerRef_eq: "upsertOwnerRef ref obj = obj\<lparr>OwnerReferences := OwnerReferences (upsertOwnerRef ref obj)\<rparr>"
  by (simp add: upsertOwnerRef_def split: option.splits)

lemma upsertOwnerRef_idem: "upsertOwnerRef ref (upsertOwnerRef ref obj) = upsertOwnerRef ref obj"
proof -
  have "upsertOwnerRef ref (upsertOwnerRef ref obj) =
          (upsertOwnerRef ref obj)\<lparr>OwnerReferences := OwnerReferences (upsertOwnerRef ref (upsertOwnerRef ref obj))\<rparr>"
    by (rule upsertOwnerRef_eq)
  also have "\<dots> = (upsertOwnerRef ref obj)\<lparr>OwnerReferences := OwnerReferences (upsertOwnerRef ref obj)\<rparr>"
    by (simp only: upsert_owners_idem)
  also have "\<dots> = upsertOwnerRef ref obj" by simp
  finally show ?thesis .
qed

lemma pools_upsert [simp]: "Spec_Topology_Pools (upsertOwnerRef ref (yas::YurtAppSet)) = Spec_Topology_Pools yas"
  by (simp add: upsertOwnerRef_def split: option.splits)

lemma pools_joinPool:
  "Spec_Topology_Pools (joinPool pa yas) =
     (if Spec_PoolName pa \<in> pool_Name ` set (Spec_Topology_Pools yas) then Spec_Topology_Pools yas
      else Spec_Topology_Pools yas @ [newPool pa])"
  by (force simp: joinPool_def SetOwnerReference_def newPool_def list_ex_iff Let_def)

lemma joinPool_present: "Spec_PoolName pa \<in> pool_Name ` set (Spec_Topology_Pools (joinPool pa yas))"
  by (auto simp: pools_joinPool newPool_def)

lemma joinPool_idem: "joinPool pa (joinPool pa yas) = joinPool pa yas"
proof -
  have f: "list_ex (\<lambda>up. pool_Name up = pool_Name (newPool pa)) (Spec_Topology_Pools (joinPool pa yas))"
    using joinPool_present[of pa yas] by (auto simp: list_ex_iff newPool_def)
  have "joinPool pa (joinPool pa yas) = SetOwnerReference pa (joinPool pa yas)"
    using f by (simp add: joinPool_def[of pa "joinPool pa yas"] Let_def)
  also have "\<dots> = joinPool pa yas"
    by (simp add: joinPool_def[of pa yas] Let_def SetOwnerReference_def upsertOwnerRef_idem)
  finally show ?thesis .
qed

lemma joinPool_funpow: "(joinPool pa ^^ Suc n) yas = joinPool pa yas"
  by (induction n) (simp_all add: joinPool_idem)

lemma count_joinPool:
  "length (filter (\<lambda>p. pool_Name p = Spec_PoolName pa) (Spec_Topology_Pools (joinPool pa yas)))
     \<le> max 1 (length (filter (\<lambda>p. pool_Name p = Spec_PoolName pa) (Spec_Topology_Pools yas)))"
proof (cases "Spec_PoolName pa \<in> pool_Name ` set (Spec_Topology_Pools yas)")
  case True
  then show ?thesis by (simp add: pools_joinPool)
next
  case False
  then have "filter (\<lambda>p. pool_Name p = Spec_PoolName pa) (Spec_Topology_Pools yas) = []"
    unfolding filter_empty_conv by (metis image_eqI)
  with False show ?thesis by (simp add: pools_joinPool newPool_def)
qed

section \<open>Selecting the catalog\<close>

lemma annotationToComponent_no_annotations:
  "map_of annotation ''AdditionalDeployments'' = None \<Longrightarrow>
   map_of annotation ''AdditionalServices'' = None \<Longrightarrow>
   annotationToComponent rt annotation = Inr []"
  by (simp add: annotationToComponent_def unmarshalDeployments_def unmarshalServices_def
        mergeAdditional_def)

lemma annotationToComponent_error:
  assumes "annotationToComponent rt annotation = Inl err"
  shows "\<exists>payload msg. err = DecodeError msg \<and>
           (map_of annotation ''AdditionalDeployments'' = Some payload \<and>
              json_deployments rt payload = Inl msg \<or>
            map_of annotation ''AdditionalServices'' = Some payload \<and>
              json_services rt payload = Inl msg)"
  using assms
  by (auto simp: annotationToComponent_def unmarshalDeployments_def unmarshalServices_def
        split: option.splits sum.splits)

text \<open>
  C5 (as amended).  The desired components of a parent are the list that the
  security catalog holds for the parent's version when \<open>Spec.Security\<close> is set, and the
  list of the other catalog when it is not, followed by the components that the
  parent's annotations add; a version that the selected catalog does not hold
  contributes the empty list.  The only error is a payload of one of the two
  annotations that does not decode.  For a parent whose annotations carry neither
  payload the annotations add nothing, so that the result is exactly the list of the
  catalog, empty for an absent version, without error.
\<close>

theorem desiredComponentsOf_selects:
  "(case desiredComponentsOf r platformAdmin of
      Inr components \<Rightarrow>
        (\<exists>additional.
           annotationToComponent (runtime r) (Annotations platformAdmin) = Inr additional \<and>
           components =
             (case map_of (if Spec_Security platformAdmin
                           then SecurityComponents (Configration r)
                           else NoSectyComponents (Configration r))
                     (Spec_Version platformAdmin) of
                None \<Rightarrow> []
              | Some catalog \<Rightarrow> catalog) @ additional)
    | Inl err \<Rightarrow>
        (\<exists>payload msg. err = DecodeError msg \<and>
           (map_of (Annotations platformAdmin) ''AdditionalDeployments'' = Some payload \<and>
              json_deployments (runtime r) payload = Inl msg \<or>
            map_of (Annotations platformAdmin) ''AdditionalServices'' = Some payload \<and>
              json_services (runtime r) payload = Inl msg))) \<and>
   (map_of (Annotations platformAdmin) ''AdditionalDeployments'' = None \<and>
    map_of (Annotations platformAdmin) ''AdditionalServices'' = None \<longrightarrow>
      annotationToComponent (runtime r) (Annotations platformAdmin) = Inr [])"
proof (intro conjI impI)
  show "case desiredComponentsOf r platformAdmin of
      Inr components \<Rightarrow>
        (\<exists>additional.
           annotationToComponent (runtime r) (Annotations platformAdmin) = Inr additional \<and>
           components =
             (case map_of (if Spec_Security platformAdmin
                           then SecurityComponents (Configration r)
                           else NoSectyComponents (Configration r))
                     (Spec_Version platformAdmin) of
                None \<Rightarrow> []
              | Some catalog \<Rightarrow> catalog) @ additional)
    | Inl err \<Rightarrow>
        (\<exists>payload msg. err = DecodeError msg \<and>
           (map_of (Annotations platformAdmin) ''AdditionalDeployments'' = Some payload \<and>
              json_deployments (runtime r) payload = Inl msg \<or>
            map_of (Annotations platformAdmin) ''AdditionalServices'' = Some payload \<and>
              json_services (runtime r) payload = Inl msg))"
  proof (cases "annotationToComponent (runtime r) (Annotations platformAdmin)")
    case (Inl err)
    from annotationToComponent_error[OF this] Inl show ?thesis
      by (simp add: desiredComponentsOf_def)
  next
    case (Inr additional)
    then show ?thesis
      by (simp add: desiredComponentsOf_def catalogComponents_def index_map_def)
  qed
next
  assume "map_of (Annotations platformAdmin) ''AdditionalDeployments'' = None \<and>
    map_of (Annotations platformAdmin) ''AdditionalServices'' = None"
  then show "annotationToComponent (runtime r) (Annotations platformAdmin) = Inr []"
    by (simp add: annotationToComponent_no_annotations)
qed

theorem desiredComponentsOf_selects_witness:
  "desiredComponentsOf example_reconciler edgex = Inr [foo] \<and>
   desiredComponentsOf example_reconciler (edgex\<lparr>Spec_Version := ''v9''\<rparr>) = Inr [] \<and>
   desiredComponentsOf example_reconciler (edgex\<lparr>Spec_Security := False\<rparr>) = Inr []"
proof -
  have a: "map_of (Annotations edgex) ''AdditionalDeployments'' = None"
    "map_of (Annotations edgex) ''AdditionalServices'' = None"
    by (simp_all add: edgex_def)
  have "desiredComponentsOf example_reconciler edgex = Inr [foo]"
    using desiredComponentsOf_selects[where r = example_reconciler and platformAdmin = edgex] a
    by (cases "desiredComponentsOf example_reconciler edgex")
       (auto simp: example_reconciler_def example_config_def edgex_def)
  moreover have "desiredComponentsOf example_reconciler (edgex\<lparr>Spec_Version := ''v9''\<rparr>) = Inr []"
    using desiredComponentsOf_selects[where r = example_reconciler and
            platformAdmin = "edgex\<lparr>Spec_Version := ''v9''\<rparr>"] a
    by (cases "desiredComponentsOf example_reconciler (edgex\<lparr>Spec_Version := ''v9''\<rparr>)")
       (auto simp: example_reconciler_def example_config_def edgex_def)
  moreover have "desiredComponentsOf example_reconciler (edgex\<lparr>Spec_Security := False\<rparr>) = Inr []"
    using desiredComponentsOf_selects[where r = example_reconciler and
            platformAdmin = "edgex\<lparr>Spec_Security := False\<rparr>"] a
    by (cases "desiredComponentsOf example_reconciler (edgex\<lparr>Spec_Security := False\<rparr>)")
       (auto simp: example_reconciler_def example_config_def edgex_def)
  ultimately show ?thesis by simp
qed

text \<open>
  C5 as stated does not hold for every parent: the version \<open>v9\<close> is absent from the
  catalog, yet a parent that carries an additional service template gets a desired
  component, and one whose payload is malformed gets an error.
\<close>

theorem desiredComponentsOf_absent_version_annotated:
  "map_of (SecurityComponents (Configration example_reconciler)) ''v9'' = None \<and>
   desiredComponentsOf example_reconciler
     (edgex\<lparr>Annotations := [(''AdditionalServices'', ''one-service'')],
            Spec_Version := ''v9''\<rparr>) =
     Inr [\<lparr>comp_Name = ''extra-svc'', comp_Service = Some (ServiceSpec ''extra-exposure''),
           comp_Deployment = None\<rparr>] \<and>
   desiredComponentsOf example_reconciler
     (edgex\<lparr>Annotations := [(''AdditionalServices'', ''not json'')],
            Spec_Version := ''v9''\<rparr>) = Inl (DecodeError ''invalid character'')"
  by code_simp

section \<open>The record of calls and the stores\<close>

lemma calls_called [simp]: "calls (called cl e c) = calls c @ [(cl, e)]"
  by (simp add: called_def)

lemma stores_called [simp]:
  "store_platformadmins (called cl e c) = store_platformadmins c"
  "store_configmaps (called cl e c) = store_configmaps c"
  "store_services (called cl e c) = store_services c"
  "store_yurtappsets (called cl e c) = store_yurtappsets c"
  by (simp_all add: called_def)

lemma lawful_resources [simp]:
  "lawful PlatformAdmins" "lawful ConfigMaps" "lawful Services" "lawful YurtAppSets"
  by (simp_all add: lawful_def PlatformAdmins_def ConfigMaps_def Services_def YurtAppSets_def)

lemma lawful_calls [simp]: "lawful R \<Longrightarrow> calls (res_store R xs c) = calls c"
  unfolding lawful_def by blast

lemma lawful_objects [simp]: "lawful R \<Longrightarrow> res_objects R (res_store R xs c) = xs"
  unfolding lawful_def by blast

lemma lawful_called [simp]: "lawful R \<Longrightarrow> res_objects R (called cl e c) = res_objects R c"
  unfolding lawful_def called_def by blast

lemma res_objects_called [simp]:
  "res_objects ConfigMaps (called cl e c) = res_objects ConfigMaps c"
  "res_objects Services (called cl e c) = res_objects Services c"
  "res_objects YurtAppSets (called cl e c) = res_objects YurtAppSets c"
  by (simp_all add: ConfigMaps_def Services_def YurtAppSets_def)

text \<open>Every operation only adds to the record of calls.\<close>

lemma apiGet_calls: "prefix (calls c) (calls (snd (apiGet r R k c)))"
  by (simp add: apiGet_def split: option.splits)

lemma apiCreate_calls: "lawful R \<Longrightarrow> prefix (calls c) (calls (snd (apiCreate r R obj c)))"
  by (simp add: apiCreate_def split: option.splits)

lemma apiWrite_calls: "lawful R \<Longrightarrow> prefix (calls c) (calls (snd (apiWrite v r R obj c)))"
  by (simp add: apiWrite_def split: option.splits)

lemma apiDelete_calls: "lawful R \<Longrightarrow> prefix (calls c) (calls (snd (apiDelete r R obj c)))"
  by (simp add: apiDelete_def split: option.splits)

lemma apiList_calls: "prefix (calls c) (calls (snd (apiList r R ns v c)))"
  by (simp add: apiList_def split: option.splits)

lemma updatePlatformAdmin_calls: "prefix (calls c) (calls (snd (updatePlatformAdmin r pa c)))"
  by (simp add: updatePlatformAdmin_def split: option.splits)

lemma CreateOrUpdate_calls:
  assumes "lawful R"
  shows "prefix (calls c) (calls (snd (CreateOrUpdate r R obj f c)))"
proof -
  obtain res c1 where g: "apiGet r R (objKey obj) c = (res, c1)" by (cases "apiGet r R (objKey obj) c")
  then have p1: "prefix (calls c) (calls c1)" using apiGet_calls[of c r R "objKey obj"] by simp
  show ?thesis
  proof (cases res)
    case (Inl err)
    with g p1 apiCreate_calls[OF assms, of c1 r "f obj"] show ?thesis
      by (auto simp: CreateOrUpdate_def intro: prefix_order.trans)
  next
    case (Inr existing)
    with g p1 apiWrite_calls[OF assms, of c1 VUpdate r "f existing"] show ?thesis
      by (auto simp: CreateOrUpdate_def intro: prefix_order.trans)
  qed
qed

lemma removeOwner_calls:
  "lawful R \<Longrightarrow> prefix (calls c) (calls (snd (removeOwner r R pa obj c)))"
  by (simp add: removeOwner_def Let_def apiDelete_calls apiWrite_calls split: option.splits)

lemma removeUnneeded_calls:
  "lawful R \<Longrightarrow> prefix (calls c) (calls (removeUnneeded r R pa need items c))"
proof (induction items arbitrary: c)
  case Nil
  then show ?case by simp
next
  case (Cons s items)
  show ?case
  proof (cases "Name s \<in> set need")
    case True
    with Cons show ?thesis by simp
  next
    case False
    have "prefix (calls c) (calls (snd (removeOwner r R pa s c)))"
      using Cons.prems by (rule removeOwner_calls)
    moreover have "prefix (calls (snd (removeOwner r R pa s c)))
            (calls (removeUnneeded r R pa need items (snd (removeOwner r R pa s c))))"
      using Cons.prems by (rule Cons.IH)
    ultimately show ?thesis using False by (auto intro: prefix_order.trans)
  qed
qed

lemma collectUnneeded_calls:
  assumes "lawful R"
  shows "prefix (calls c) (calls (collectUnneeded r R pa label need c))"
proof -
  obtain res c1 where l: "apiList r R (Namespace pa) label c = (res, c1)"
    by (cases "apiList r R (Namespace pa) label c")
  then have p1: "prefix (calls c) (calls c1)" using apiList_calls[of c r R "Namespace pa" label] by simp
  show ?thesis
  proof (cases res)
    case (Inl err)
    with l p1 show ?thesis by (simp add: collectUnneeded_def)
  next
    case (Inr items)
    with l p1 removeUnneeded_calls[OF assms, of c1 r pa need items] show ?thesis
      by (auto simp: collectUnneeded_def intro: prefix_order.trans)
  qed
qed

lemma rangeConfigmaps_calls:
  "prefix (calls c) (calls (snd (rangeConfigmaps r pa cms need c)))"
proof (induction cms arbitrary: need c)
  case Nil
  then show ?case by simp
next
  case (Cons cm cms)
  let ?cm = "cm\<lparr>Namespace := Namespace pa, Labels := [(LabelPlatformAdminGenerate, LabelConfigmap)]\<rparr>"
  obtain e c1 where u: "CreateOrUpdate r ConfigMaps ?cm (SetOwnerReference pa) c = (e, c1)"
    by (cases "CreateOrUpdate r ConfigMaps ?cm (SetOwnerReference pa) c")
  then have p1: "prefix (calls c) (calls c1)"
    using CreateOrUpdate_calls[of ConfigMaps c r ?cm "SetOwnerReference pa"] by simp
  show ?case
  proof (cases e)
    case (Some err)
    with u p1 show ?thesis by (simp add: Let_def)
  next
    case None
    with u p1 Cons.IH[where need = "Name ?cm # need" and c = c1] show ?thesis
      by (auto simp: Let_def intro: prefix_order.trans)
  qed
qed

lemma reconcileConfigmap_calls:
  "prefix (calls c) (calls (snd (reconcileConfigmap r pa c)))"
proof -
  let ?cms = "if Spec_Security pa
             then index_map (SecurityConfigMaps (Configration r)) (Spec_Version pa)
             else index_map (NoSectyConfigMaps (Configration r)) (Spec_Version pa)"
  obtain res c1 where l: "rangeConfigmaps r pa ?cms [] c = (res, c1)"
    by (cases "rangeConfigmaps r pa ?cms [] c")
  then have p1: "prefix (calls c) (calls c1)" using rangeConfigmaps_calls[of c r pa ?cms "[]"] by simp
  show ?thesis
  proof (cases res)
    case (Inl err)
    with l p1 show ?thesis by (simp add: reconcileConfigmap_def Let_def)
  next
    case (Inr need)
    with l p1 collectUnneeded_calls[of ConfigMaps c1 r pa LabelConfigmap need] show ?thesis
      by (auto simp: reconcileConfigmap_def Let_def intro: prefix_order.trans)
  qed
qed

lemma handleService_calls: "prefix (calls c) (calls (snd (handleService r pa dc c)))"
  by (simp add: handleService_def CreateOrUpdate_calls split: option.splits)

lemma handleYurtAppSet_calls: "prefix (calls c) (calls (snd (handleYurtAppSet r pa dc c)))"
proof (cases "comp_Deployment dc")
  case None
  then show ?thesis by (simp add: handleYurtAppSet_def)
next
  case (Some spec)
  define yas where "yas = SetControllerReference pa
     \<lparr>Name = comp_Name dc, Namespace = Namespace pa, UID = [],
      Labels = [(LabelPlatformAdminGenerate, LabelDeployment)],
      Annotations = [], OwnerReferences = [], Finalizers = [],
      DeletionTimestamp = None,
      Spec_Selector = [(''app'', comp_Name dc)],
      Spec_WorkloadTemplate = ([(''app'', comp_Name dc)], spec),
      Spec_Topology_Pools = [] @ [newPool pa],
      Status_PoolReplicas = [], Status_ReadyReplicas = 0, Status_Replicas = 0\<rparr>"
  obtain e c1 where u: "apiCreate r YurtAppSets yas c = (e, c1)"
    by (cases "apiCreate r YurtAppSets yas c")
  then have p1: "prefix (calls c) (calls c1)"
    using apiCreate_calls[of YurtAppSets c r yas] by simp
  have "snd (handleYurtAppSet r pa dc c) = c1"
    using Some u by (simp add: handleYurtAppSet_def Let_def yas_def split: option.splits)
  with p1 show ?thesis by simp
qed


text \<open>What the operations on one kind leave alone.\<close>

lemma apiGet_snd: "\<exists>e. snd (apiGet r R k c) = called (VGet, res_kind R, k) e c"
  by (auto simp: apiGet_def split: option.splits)

lemma apiGet_stores [simp]:
  "store_platformadmins (snd (apiGet r R k c)) = store_platformadmins c"
  "store_configmaps (snd (apiGet r R k c)) = store_configmaps c"
  "store_services (snd (apiGet r R k c)) = store_services c"
  "store_yurtappsets (snd (apiGet r R k c)) = store_yurtappsets c"
  using apiGet_snd[of r R k c] by auto

lemma apiList_stores [simp]:
  "store_platformadmins (snd (apiList r R ns v c)) = store_platformadmins c"
  "store_configmaps (snd (apiList r R ns v c)) = store_configmaps c"
  "store_services (snd (apiList r R ns v c)) = store_services c"
  "store_yurtappsets (snd (apiList r R ns v c)) = store_yurtappsets c"
  by (simp_all add: apiList_def split: option.splits)

lemma Services_ops_frame [simp]:
  "store_yurtappsets (snd (apiCreate r Services obj c)) = store_yurtappsets c"
  "store_yurtappsets (snd (apiWrite v r Services obj c)) = store_yurtappsets c"
  "store_yurtappsets (snd (apiDelete r Services obj c)) = store_yurtappsets c"
  "store_platformadmins (snd (apiCreate r Services obj c)) = store_platformadmins c"
  "store_platformadmins (snd (apiWrite v r Services obj c)) = store_platformadmins c"
  "store_platformadmins (snd (apiDelete r Services obj c)) = store_platformadmins c"
  "store_configmaps (snd (apiCreate r Services obj c)) = store_configmaps c"
  "store_configmaps (snd (apiWrite v r Services obj c)) = store_configmaps c"
  "store_configmaps (snd (apiDelete r Services obj c)) = store_configmaps c"
  by (simp_all add: apiCreate_def apiWrite_def apiDelete_def Services_def split: option.splits)

lemma YurtAppSets_ops_frame [simp]:
  "store_services (snd (apiCreate r YurtAppSets obj c)) = store_services c"
  "store_services (snd (apiWrite v r YurtAppSets obj c)) = store_services c"
  "store_services (snd (apiDelete r YurtAppSets obj c)) = store_services c"
  "store_platformadmins (snd (apiCreate r YurtAppSets obj c)) = store_platformadmins c"
  "store_platformadmins (snd (apiWrite v r YurtAppSets obj c)) = store_platformadmins c"
  "store_platformadmins (snd (apiDelete r YurtAppSets obj c)) = store_platformadmins c"
  "store_configmaps (snd (apiCreate r YurtAppSets obj c)) = store_configmaps c"
  "store_configmaps (snd (apiWrite v r YurtAppSets obj c)) = store_configmaps c"
  "store_configmaps (snd (apiDelete r YurtAppSets obj c)) = store_configmaps c"
  by (simp_all add: apiCreate_def apiWrite_def apiDelete_def YurtAppSets_def split: option.splits)

lemma ConfigMaps_ops_frame [simp]:
  "store_services (snd (apiCreate r ConfigMaps obj c)) = store_services c"
  "store_services (snd (apiWrite v r ConfigMaps obj c)) = store_services c"
  "store_services (snd (apiDelete r ConfigMaps obj c)) = store_services c"
  "store_platformadmins (snd (apiCreate r ConfigMaps obj c)) = store_platformadmins c"
  "store_platformadmins (snd (apiWrite v r ConfigMaps obj c)) = store_platformadmins c"
  "store_platformadmins (snd (apiDelete r ConfigMaps obj c)) = store_platformadmins c"
  "store_yurtappsets (snd (apiCreate r ConfigMaps obj c)) = store_yurtappsets c"
  "store_yurtappsets (snd (apiWrite v r ConfigMaps obj c)) = store_yurtappsets c"
  "store_yurtappsets (snd (apiDelete r ConfigMaps obj c)) = store_yurtappsets c"
  by (simp_all add: apiCreate_def apiWrite_def apiDelete_def ConfigMaps_def split: option.splits)

lemma CreateOrUpdate_Services_frame [simp]:
  "store_yurtappsets (snd (CreateOrUpdate r Services obj f c)) = store_yurtappsets c"
  "store_platformadmins (snd (CreateOrUpdate r Services obj f c)) = store_platformadmins c"
proof -
  obtain g c1 where ge: "apiGet r Services (objKey obj) c = (g, c1)"
    by (cases "apiGet r Services (objKey obj) c")
  then have s: "store_yurtappsets c1 = store_yurtappsets c"
     "store_platformadmins c1 = store_platformadmins c"
    using apiGet_stores[of r Services "objKey obj" c] by simp_all
  show "store_yurtappsets (snd (CreateOrUpdate r Services obj f c)) = store_yurtappsets c"
    using ge s by (cases g) (simp_all add: CreateOrUpdate_def)
  show "store_platformadmins (snd (CreateOrUpdate r Services obj f c)) = store_platformadmins c"
    using ge s by (cases g) (simp_all add: CreateOrUpdate_def)
qed

lemma handleService_frame [simp]:
  "store_yurtappsets (snd (handleService r pa dc c)) = store_yurtappsets c"
  "store_platformadmins (snd (handleService r pa dc c)) = store_platformadmins c"
  by (simp_all add: handleService_def split: option.splits)

text \<open>A workload-set that is stored stays stored when one is created or patched.\<close>

lemma apiCreate_yas_keeps:
  "map_of (store_yurtappsets c) k \<noteq> None \<Longrightarrow>
   map_of (store_yurtappsets (snd (apiCreate r YurtAppSets obj c))) k \<noteq> None"
  by (auto simp: apiCreate_def YurtAppSets_def split: option.splits)

lemma apiWrite_yas_keeps:
  "map_of (store_yurtappsets c) k \<noteq> None \<Longrightarrow>
   map_of (store_yurtappsets (snd (apiWrite v r YurtAppSets obj c))) k \<noteq> None"
  by (auto simp: apiWrite_def YurtAppSets_def update_conv' split: option.splits)

lemma handleYurtAppSet_snd:
  "snd (handleYurtAppSet r pa dc c) = c \<or>
   (\<exists>yas. snd (handleYurtAppSet r pa dc c) = snd (apiCreate r YurtAppSets yas c))"
proof (cases "comp_Deployment dc")
  case None
  then show ?thesis by (simp add: handleYurtAppSet_def)
next
  case (Some spec)
  define yas where "yas = SetControllerReference pa
     \<lparr>Name = comp_Name dc, Namespace = Namespace pa, UID = [],
      Labels = [(LabelPlatformAdminGenerate, LabelDeployment)],
      Annotations = [], OwnerReferences = [], Finalizers = [],
      DeletionTimestamp = None,
      Spec_Selector = [(''app'', comp_Name dc)],
      Spec_WorkloadTemplate = ([(''app'', comp_Name dc)], spec),
      Spec_Topology_Pools = [] @ [newPool pa],
      Status_PoolReplicas = [], Status_ReadyReplicas = 0, Status_Replicas = 0\<rparr>"
  obtain e c1 where u: "apiCreate r YurtAppSets yas c = (e, c1)"
    by (cases "apiCreate r YurtAppSets yas c")
  have "snd (handleYurtAppSet r pa dc c) = snd (apiCreate r YurtAppSets yas c)"
    using Some u by (simp add: handleYurtAppSet_def Let_def yas_def split: option.splits)
  then show ?thesis by blast
qed

lemma handleYurtAppSet_keeps:
  "map_of (store_yurtappsets c) k \<noteq> None \<Longrightarrow>
   map_of (store_yurtappsets (snd (handleYurtAppSet r pa dc c))) k \<noteq> None"
  using handleYurtAppSet_snd[of r pa dc c] apiCreate_yas_keeps[of c k r] by auto

lemma handleYurtAppSet_no_panic:
  "comp_Deployment dc \<noteq> None \<Longrightarrow> fst (handleYurtAppSet r pa dc c) \<noteq> Panic p"
  by (auto simp: handleYurtAppSet_def Let_def split: option.splits prod.splits)

lemma apiGet_NotFound:
  "apiGet r R k c = (Inl NotFound, c') \<Longrightarrow> map_of (res_objects R c) k = None"
  by (auto simp: apiGet_def split: option.splits)

lemma rangeComponents_no_panic:
  "\<forall>dc\<in>set dcs. comp_Deployment dc \<noteq> None \<or>
      map_of (store_yurtappsets c) (Namespace pa, comp_Name dc) \<noteq> None \<Longrightarrow>
   fst (rangeComponents r pa dcs ready need c) \<noteq> Panic p"
proof (induction dcs arbitrary: ready need c)
  case Nil
  then show ?case by simp
next
  case (Cons dc rest)
  let ?k = "(Namespace pa, comp_Name dc)"
  obtain e c1 where hs: "handleService r pa dc c = (e, c1)" by (cases "handleService r pa dc c")
  then have s1: "store_yurtappsets c1 = store_yurtappsets c"
    using handleService_frame(1)[of r pa dc c] by simp
  obtain g c2 where ge: "apiGet r YurtAppSets ?k c1 = (g, c2)" by (cases "apiGet r YurtAppSets ?k c1")
  then have s2: "store_yurtappsets c2 = store_yurtappsets c"
    using apiGet_stores(4)[of r YurtAppSets ?k c1] s1 by simp
  have rest2: "\<forall>d\<in>set rest. comp_Deployment d \<noteq> None \<or>
      map_of (store_yurtappsets c2) (Namespace pa, comp_Name d) \<noteq> None"
    using Cons.prems s2 by simp
  show ?case
  proof (cases e)
    case (Some err)
    with hs show ?thesis by (simp add: Let_def)
  next
    case None
    note e = None
    show ?thesis
    proof (cases g)
      case (Inl err)
      show ?thesis
      proof (cases "err = NotFound")
        case False
        with e hs ge Inl show ?thesis by (simp add: Let_def)
      next
        case True
        with ge Inl have "map_of (store_yurtappsets c1) ?k = None"
          using apiGet_NotFound[of r YurtAppSets ?k c1 c2] by (simp add: YurtAppSets_def)
        with s1 Cons.prems have d: "comp_Deployment dc \<noteq> None" by auto
        obtain h c3 where hy: "handleYurtAppSet r pa dc c2 = (h, c3)"
          by (cases "handleYurtAppSet r pa dc c2")
        have np: "h \<noteq> Panic p" for p using handleYurtAppSet_no_panic[OF d, of r pa c2 p] hy by simp
        have rest3: "\<forall>d\<in>set rest. comp_Deployment d \<noteq> None \<or>
            map_of (store_yurtappsets c3) (Namespace pa, comp_Name d) \<noteq> None"
          using rest2 handleYurtAppSet_keeps[of c2 _ r pa dc] hy by auto
        show ?thesis
        proof (cases h)
          case (Ret u)
          with e hs ge Inl True hy Cons.IH[OF rest3] show ?thesis by (simp add: Let_def)
        next
          case (Fail err')
          with e hs ge Inl True hy show ?thesis by (simp add: Let_def)
        next
          case (Panic q)
          with np[of q] show ?thesis by simp
        qed
      qed
    next
      case (Inr yas)
      show ?thesis
      proof (cases "map_of (Status_PoolReplicas yas) (Spec_PoolName pa) \<noteq> None")
        case True
        with e hs ge Inr Cons.IH[OF rest2] show ?thesis by (simp add: Let_def)
      next
        case False
        obtain w c3 where pw: "apiPatch r YurtAppSets (joinPool pa yas) c2 = (w, c3)"
          by (cases "apiPatch r YurtAppSets (joinPool pa yas) c2")
        have rest3: "\<forall>d\<in>set rest. comp_Deployment d \<noteq> None \<or>
            map_of (store_yurtappsets c3) (Namespace pa, comp_Name d) \<noteq> None"
          using rest2 apiWrite_yas_keeps[of c2 _ VPatch r "joinPool pa yas"] pw by auto
        show ?thesis
        proof (cases w)
          case None
          with e hs ge Inr False pw Cons.IH[OF rest3] show ?thesis by (simp add: Let_def)
        next
          case (Some err)
          with e hs ge Inr False pw show ?thesis by (simp add: Let_def)
        qed
      qed
    qed
  qed
qed

lemma rangeComponents_nil_deref:
  assumes "comp_Deployment dc = None"
      and "map_of (store_yurtappsets c) (Namespace pa, comp_Name dc) = None"
      and "\<forall>n. Client r n (VGet, KYurtAppSet, (Namespace pa, comp_Name dc)) = None"
      and "fst (handleService r pa dc c) = None"
  shows "fst (rangeComponents r pa (dc # rest) ready need c) = Panic NilPointerDereference"
proof -
  let ?k = "(Namespace pa, comp_Name dc)"
  obtain c1 where hs: "handleService r pa dc c = (None, c1)"
    using assms(4) by (cases "handleService r pa dc c") auto
  then have s1: "store_yurtappsets c1 = store_yurtappsets c"
    using handleService_frame(1)[of r pa dc c] by simp
  have ge: "apiGet r YurtAppSets ?k c1 = (Inl NotFound, called (VGet, KYurtAppSet, ?k) (Some NotFound) c1)"
    using assms(2,3) s1 by (simp add: apiGet_def YurtAppSets_def)
  show ?thesis using hs ge assms(1) by (simp add: Let_def handleYurtAppSet_def)
qed

text \<open>
  C10.  A desired component without a deployment spec whose workload-set is not
  stored makes the synchronizer panic with a nil pointer dereference, once its
  exposure has been handled and the fetch of the workload-set has reported that it
  is not found.  The loop over the desired components cannot panic when every one of
  them carries a deployment spec or has its workload-set stored already.
\<close>

theorem rangeComponents_nil_deployment:
  "(comp_Deployment dc = None \<and>
    map_of (store_yurtappsets c) (Namespace pa, comp_Name dc) = None \<and>
    (\<forall>n. Client r n (VGet, KYurtAppSet, (Namespace pa, comp_Name dc)) = None) \<and>
    fst (handleService r pa dc c) = None \<longrightarrow>
      fst (rangeComponents r pa (dc # rest) ready need c) = Panic NilPointerDereference) \<and>
   ((\<forall>d\<in>set dcs. comp_Deployment d \<noteq> None \<or>
        map_of (store_yurtappsets c) (Namespace pa, comp_Name d) \<noteq> None) \<longrightarrow>
      (\<forall>p. fst (rangeComponents r pa dcs ready need c) \<noteq> Panic p))"
  using rangeComponents_nil_deref[of dc c pa r rest ready need]
        rangeComponents_no_panic[of dcs c pa r ready need]
  by blast

theorem rangeComponents_nil_deployment_witness:
  "fst (rangeComponents example_reconciler edgex [exposure_only] 0 [] fresh_cluster) =
     Panic NilPointerDereference \<and>
   fst (rangeComponents example_reconciler edgex [foo] 0 [] fresh_cluster) \<noteq>
     Panic NilPointerDereference"
proof -
  have 1: "comp_Deployment exposure_only = None"
    by (simp add: exposure_only_def)
  have 2: "map_of (store_yurtappsets fresh_cluster) (Namespace edgex, comp_Name exposure_only) = None"
    by (simp add: fresh_cluster_def)
  have 3: "\<forall>n. Client example_reconciler n
             (VGet, KYurtAppSet, (Namespace edgex, comp_Name exposure_only)) = None"
    by (simp add: example_reconciler_def)
  have 4: "fst (handleService example_reconciler edgex exposure_only fresh_cluster) = None"
    by (simp add: handleService_def exposure_only_def CreateOrUpdate_def apiGet_def
          apiCreate_def callError_def Services_def example_reconciler_def fresh_cluster_def
          objKey_def edgex_def called_def)
  have 5: "\<forall>d\<in>set [foo]. comp_Deployment d \<noteq> None \<or>
             map_of (store_yurtappsets fresh_cluster) (Namespace edgex, comp_Name d) \<noteq> None"
    by (simp add: foo_def)
  from rangeComponents_nil_deployment
         [of exposure_only fresh_cluster edgex example_reconciler "[]" 0 "[]" "[foo]"]
       1 2 3 4 5
  show ?thesis by blast
qed

section \<open>Deletion: memberships first, finalizer last\<close>

lemma apiGet_Inl:
  "apiGet r R k c = (Inl err, c') \<Longrightarrow> c' = called (VGet, res_kind R, k) (Some err) c"
  by (auto simp: apiGet_def split: option.splits)

lemma apiGet_Inr:
  "apiGet r R k c = (Inr obj, c') \<Longrightarrow>
   c' = called (VGet, res_kind R, k) None c \<and> map_of (res_objects R c) k = Some obj"
  by (auto simp: apiGet_def split: option.splits)

lemma apiWrite_Some:
  "apiWrite v r R obj c = (Some err, c') \<Longrightarrow> c' = called (v, res_kind R, objKey obj) (Some err) c"
  by (auto simp: apiWrite_def split: option.splits)

lemma apiWrite_None:
  "apiWrite v r R obj c = (None, c') \<Longrightarrow>
   c' = called (v, res_kind R, objKey obj) None
          (res_store R (AList.update (objKey obj) obj (res_objects R c)) c)"
  by (auto simp: apiWrite_def split: option.splits)

lemma keyed_lookup: "keyed xs \<Longrightarrow> map_of xs k = Some obj \<Longrightarrow> objKey obj = k"
  by (auto simp: keyed_def list_all_iff dest!: map_of_SomeD)

lemma keyed_update: "keyed xs \<Longrightarrow> objKey obj = k \<Longrightarrow> keyed (AList.update k obj xs)"
  by (induction xs) (auto simp: keyed_def)

lemma objKey_pools [simp]: "objKey (yas\<lparr>Spec_Topology_Pools := ps\<rparr>) = objKey yas"
  by (simp add: objKey_def)

lemma yas_store [simp]:
  "store_yurtappsets (res_store YurtAppSets xs c) = xs"
  "store_platformadmins (res_store YurtAppSets xs c) = store_platformadmins c"
  "calls (res_store YurtAppSets xs c) = calls c"
  "res_objects YurtAppSets c = store_yurtappsets c"
  "res_kind YurtAppSets = KYurtAppSet"
  by (simp_all add: YurtAppSets_def)

lemma listsPool_called [simp]: "listsPool (called cl e c) k P = listsPool c k P"
  by (simp add: listsPool_def)

lemma removePool_keeps_pools_lemma:
  "removePool P pools = Inr res \<Longrightarrow> P \<notin> pool_Name ` set res"
  unfolding removePool_def using rangePools_clean[of P 0 pools "length pools" res] by simp

lemma removalTrace_gets:
  "removalTrace ns names tr \<Longrightarrow> ((VGet, KYurtAppSet, (ns, n)), e) \<in> set tr \<Longrightarrow> n \<in> set names"
  by (induction ns names tr rule: removalTrace.induct) auto

lemma rangeDelete_trace:
  assumes "keyed (store_yurtappsets c)"
      and "rangeDelete r pa dcs c = (res, c')"
  shows "\<exists>tr. calls c' = calls c @ tr \<and>
           keyed (store_yurtappsets c') \<and>
           store_platformadmins c' = store_platformadmins c \<and>
           (\<forall>e\<in>set tr. fst (fst e) \<in> {VGet, VPatch}) \<and>
           (\<forall>cl err. (cl, Some err) \<in> set tr \<and> fst cl = VPatch \<longrightarrow> res = Fail err) \<and>
           (\<forall>k. \<not> listsPool c k (Spec_PoolName pa) \<longrightarrow> \<not> listsPool c' k (Spec_PoolName pa)) \<and>
           (res = Ret () \<longrightarrow>
              removalTrace (Namespace pa) (map comp_Name dcs) tr \<and>
              (\<forall>n\<in>set (map comp_Name dcs).
                 ((VGet, KYurtAppSet, (Namespace pa, n)), None) \<in> set tr \<longrightarrow>
                 \<not> listsPool c' (Namespace pa, n) (Spec_PoolName pa)))"
  using assms
proof (induction dcs arbitrary: c)
  case Nil
  then show ?case by auto
next
  case (Cons dc rest)
  let ?k = "(Namespace pa, comp_Name dc)"
  let ?P = "Spec_PoolName pa"
  obtain g c1 where ge: "apiGet r YurtAppSets ?k c = (g, c1)" by (cases "apiGet r YurtAppSets ?k c")
  show ?case
  proof (cases g)
    case (Inl err)
    with ge have c1: "c1 = called (VGet, KYurtAppSet, ?k) (Some err) c"
      using apiGet_Inl[of r YurtAppSets ?k c err c1] by simp
    have k1: "keyed (store_yurtappsets c1)" using Cons.prems(1) c1 by simp
    have rd: "rangeDelete r pa rest c1 = (res, c')" using Cons.prems(2) ge Inl by simp
    from Cons.IH[OF k1 rd] obtain tr where tr:
      "calls c' = calls c1 @ tr" "keyed (store_yurtappsets c')"
      "store_platformadmins c' = store_platformadmins c1"
      "\<forall>e\<in>set tr. fst (fst e) \<in> {VGet, VPatch}"
      "\<forall>cl err. (cl, Some err) \<in> set tr \<and> fst cl = VPatch \<longrightarrow> res = Fail err"
      "\<forall>k. \<not> listsPool c1 k ?P \<longrightarrow> \<not> listsPool c' k ?P"
      "res = Ret () \<longrightarrow> removalTrace (Namespace pa) (map comp_Name rest) tr \<and>
              (\<forall>n\<in>set (map comp_Name rest).
                 ((VGet, KYurtAppSet, (Namespace pa, n)), None) \<in> set tr \<longrightarrow>
                 \<not> listsPool c' (Namespace pa, n) ?P)"
      by blast
    let ?tr = "((VGet, KYurtAppSet, ?k), Some err) # tr"
    have "calls c' = calls c @ ?tr" using tr(1) c1 by simp
    moreover have "store_platformadmins c' = store_platformadmins c" using tr(3) c1 by simp
    moreover have "\<forall>e\<in>set ?tr. fst (fst e) \<in> {VGet, VPatch}" using tr(4) by simp
    moreover have "\<forall>cl e. (cl, Some e) \<in> set ?tr \<and> fst cl = VPatch \<longrightarrow> res = Fail e"
      using tr(5) by auto
    moreover have "\<forall>k. \<not> listsPool c k ?P \<longrightarrow> \<not> listsPool c' k ?P" using tr(6) c1 by simp
    moreover have "res = Ret () \<longrightarrow> removalTrace (Namespace pa) (map comp_Name (dc # rest)) ?tr \<and>
              (\<forall>n\<in>set (map comp_Name (dc # rest)).
                 ((VGet, KYurtAppSet, (Namespace pa, n)), None) \<in> set ?tr \<longrightarrow>
                 \<not> listsPool c' (Namespace pa, n) ?P)"
    proof
      assume "res = Ret ()"
      with tr(7) have a: "removalTrace (Namespace pa) (map comp_Name rest) tr"
        and b: "\<forall>n\<in>set (map comp_Name rest).
                 ((VGet, KYurtAppSet, (Namespace pa, n)), None) \<in> set tr \<longrightarrow>
                 \<not> listsPool c' (Namespace pa, n) ?P" by auto
      show "removalTrace (Namespace pa) (map comp_Name (dc # rest)) ?tr \<and>
              (\<forall>n\<in>set (map comp_Name (dc # rest)).
                 ((VGet, KYurtAppSet, (Namespace pa, n)), None) \<in> set ?tr \<longrightarrow>
                 \<not> listsPool c' (Namespace pa, n) ?P)"
      proof (intro conjI ballI impI)
        show "removalTrace (Namespace pa) (map comp_Name (dc # rest)) ?tr" using a by simp
      next
        fix n assume n: "n \<in> set (map comp_Name (dc # rest))"
          and m: "((VGet, KYurtAppSet, (Namespace pa, n)), None) \<in> set ?tr"
        then have m': "((VGet, KYurtAppSet, (Namespace pa, n)), None) \<in> set tr" by simp
        show "\<not> listsPool c' (Namespace pa, n) ?P"
        proof (cases "n \<in> set (map comp_Name rest)")
          case True
          with b m' show ?thesis by blast
        next
          case False
          with removalTrace_gets[OF a m'] show ?thesis by simp
        qed
      qed
    qed
    ultimately show ?thesis using tr(2) by blast
  next
    case (Inr yas)
    with ge have c1: "c1 = called (VGet, KYurtAppSet, ?k) None c"
      and st: "map_of (store_yurtappsets c) ?k = Some yas"
      using apiGet_Inr[of r YurtAppSets ?k c yas c1] by simp_all
    have ky: "objKey yas = ?k" using keyed_lookup[OF Cons.prems(1) st] .
    show ?thesis
    proof (cases "removePool ?P (Spec_Topology_Pools yas)")
      case (Inl p)
      with Cons.prems(2) ge Inr have "res = Panic p" "c' = c1" by simp_all
      with c1 Cons.prems(1) show ?thesis by (intro exI[of _ "[((VGet, KYurtAppSet, ?k), None)]"]) simp
    next
      case (Inr pools)
      note rp = Inr
      let ?yas = "yas\<lparr>Spec_Topology_Pools := pools\<rparr>"
      have clean: "?P \<notin> pool_Name ` set pools"
        using removePool_keeps_pools_lemma[OF rp] .
      obtain w c2 where pw: "apiPatch r YurtAppSets ?yas c1 = (w, c2)"
        by (cases "apiPatch r YurtAppSets ?yas c1")
      show ?thesis
      proof (cases w)
        case (Some err)
        with pw have c2: "c2 = called (VPatch, KYurtAppSet, ?k) (Some err) c1"
          using apiWrite_Some[of VPatch r YurtAppSets ?yas c1 err c2] ky by simp
        from Cons.prems(2) ge \<open>g = Inr yas\<close> rp pw Some have "res = Fail err" "c' = c2" by simp_all
        with c1 c2 Cons.prems(1) show ?thesis
          by (intro exI[of _ "[((VGet, KYurtAppSet, ?k), None), ((VPatch, KYurtAppSet, ?k), Some err)]"])
             simp
      next
        case None
        with pw have c2: "c2 = called (VPatch, KYurtAppSet, ?k) None
              (res_store YurtAppSets (AList.update ?k ?yas (store_yurtappsets c1)) c1)"
          using apiWrite_None[of VPatch r YurtAppSets ?yas c1 c2] ky by simp
        have k2: "keyed (store_yurtappsets c2)"
          using c2 c1 Cons.prems(1) ky by (simp add: keyed_update)
        have rd: "rangeDelete r pa rest c2 = (res, c')"
          using Cons.prems(2) ge \<open>g = Inr yas\<close> rp pw None by simp
        have l2: "listsPool c2 k ?P \<longleftrightarrow> k \<noteq> ?k \<and> listsPool c k ?P" for k
          using c2 c1 clean by (auto simp: listsPool_def update_conv')
        from Cons.IH[OF k2 rd] obtain tr where tr:
          "calls c' = calls c2 @ tr" "keyed (store_yurtappsets c')"
          "store_platformadmins c' = store_platformadmins c2"
          "\<forall>e\<in>set tr. fst (fst e) \<in> {VGet, VPatch}"
          "\<forall>cl err. (cl, Some err) \<in> set tr \<and> fst cl = VPatch \<longrightarrow> res = Fail err"
          "\<forall>k. \<not> listsPool c2 k ?P \<longrightarrow> \<not> listsPool c' k ?P"
          "res = Ret () \<longrightarrow> removalTrace (Namespace pa) (map comp_Name rest) tr \<and>
                  (\<forall>n\<in>set (map comp_Name rest).
                     ((VGet, KYurtAppSet, (Namespace pa, n)), None) \<in> set tr \<longrightarrow>
                     \<not> listsPool c' (Namespace pa, n) ?P)"
          by blast
        let ?tr = "((VGet, KYurtAppSet, ?k), None) # ((VPatch, KYurtAppSet, ?k), None) # tr"
        have "calls c' = calls c @ ?tr" using tr(1) c1 c2 by simp
        moreover have "store_platformadmins c' = store_platformadmins c" using tr(3) c1 c2 by simp
        moreover have "\<forall>e\<in>set ?tr. fst (fst e) \<in> {VGet, VPatch}" using tr(4) by simp
        moreover have "\<forall>cl e. (cl, Some e) \<in> set ?tr \<and> fst cl = VPatch \<longrightarrow> res = Fail e"
          using tr(5) by auto
        moreover have "\<forall>k. \<not> listsPool c k ?P \<longrightarrow> \<not> listsPool c' k ?P"
          using tr(6) l2 by blast
        moreover have "res = Ret () \<longrightarrow> removalTrace (Namespace pa) (map comp_Name (dc # rest)) ?tr \<and>
                  (\<forall>n\<in>set (map comp_Name (dc # rest)).
                     ((VGet, KYurtAppSet, (Namespace pa, n)), None) \<in> set ?tr \<longrightarrow>
                     \<not> listsPool c' (Namespace pa, n) ?P)"
        proof
          assume "res = Ret ()"
          with tr(7) have a: "removalTrace (Namespace pa) (map comp_Name rest) tr"
            and b: "\<forall>n\<in>set (map comp_Name rest).
                     ((VGet, KYurtAppSet, (Namespace pa, n)), None) \<in> set tr \<longrightarrow>
                     \<not> listsPool c' (Namespace pa, n) ?P" by auto
          show "removalTrace (Namespace pa) (map comp_Name (dc # rest)) ?tr \<and>
                  (\<forall>n\<in>set (map comp_Name (dc # rest)).
                     ((VGet, KYurtAppSet, (Namespace pa, n)), None) \<in> set ?tr \<longrightarrow>
                     \<not> listsPool c' (Namespace pa, n) ?P)"
          proof (intro conjI ballI impI)
            show "removalTrace (Namespace pa) (map comp_Name (dc # rest)) ?tr" using a by simp
          next
            fix n assume n: "n \<in> set (map comp_Name (dc # rest))"
              and m: "((VGet, KYurtAppSet, (Namespace pa, n)), None) \<in> set ?tr"
            show "\<not> listsPool c' (Namespace pa, n) ?P"
            proof (cases "n = comp_Name dc")
              case True
              then show ?thesis using tr(6) l2 by blast
            next
              case False
              with m have m': "((VGet, KYurtAppSet, (Namespace pa, n)), None) \<in> set tr" by simp
              from removalTrace_gets[OF a m'] b m' show ?thesis by blast
            qed
          qed
        qed
        ultimately show ?thesis using tr(2) by blast
      qed
    qed
  qed
qed


lemma updatePlatformAdmin_effect:
  "updatePlatformAdmin r pa c = (e, c') \<Longrightarrow>
   calls c' = calls c @ [((VUpdate, KPlatformAdmin, objKey pa), e)] \<and>
   store_yurtappsets c' = store_yurtappsets c"
  by (auto simp: updatePlatformAdmin_def split: option.splits)

lemma objKey_RemoveFinalizer [simp]: "objKey (RemoveFinalizer obj f) = objKey obj"
  by (simp add: RemoveFinalizer_def objKey_def)

lemma listsPool_cong: "store_yurtappsets c' = store_yurtappsets c \<Longrightarrow> listsPool c' = listsPool c"
  by (auto simp: listsPool_def fun_eq_iff)

lemma rangeDelete_trace_elim:
  assumes "keyed (store_yurtappsets c)" "rangeDelete r pa dcs c = (res, c1)"
  obtains tr where
    "calls c1 = calls c @ tr"
    "store_platformadmins c1 = store_platformadmins c"
    "\<forall>e\<in>set tr. fst (fst e) \<in> {VGet, VPatch}"
    "\<forall>cl err. (cl, Some err) \<in> set tr \<and> fst cl = VPatch \<longrightarrow> res = Fail err"
    "res = Ret () \<longrightarrow> removalTrace (Namespace pa) (map comp_Name dcs) tr \<and>
        (\<forall>n\<in>set (map comp_Name dcs).
           ((VGet, KYurtAppSet, (Namespace pa, n)), None) \<in> set tr \<longrightarrow>
           \<not> listsPool c1 (Namespace pa, n) (Spec_PoolName pa))"
proof -
  from rangeDelete_trace[OF assms] obtain tr where
    "calls c1 = calls c @ tr \<and>
           keyed (store_yurtappsets c1) \<and>
           store_platformadmins c1 = store_platformadmins c \<and>
           (\<forall>e\<in>set tr. fst (fst e) \<in> {VGet, VPatch}) \<and>
           (\<forall>cl err. (cl, Some err) \<in> set tr \<and> fst cl = VPatch \<longrightarrow> res = Fail err) \<and>
           (\<forall>k. \<not> listsPool c k (Spec_PoolName pa) \<longrightarrow> \<not> listsPool c1 k (Spec_PoolName pa)) \<and>
           (res = Ret () \<longrightarrow>
              removalTrace (Namespace pa) (map comp_Name dcs) tr \<and>
              (\<forall>n\<in>set (map comp_Name dcs).
                 ((VGet, KYurtAppSet, (Namespace pa, n)), None) \<in> set tr \<longrightarrow>
                 \<not> listsPool c1 (Namespace pa, n) (Spec_PoolName pa)))" ..
  then show ?thesis by (elim conjE) (rule that)
qed


text \<open>
  What the deletion pass does guarantee, over a keyed store of workload-sets: if the
  update that removes the finalizer is issued at all, it is the last call of the
  pass, and before it every desired workload-set has been fetched in turn and, where
  the fetch succeeded, patched successfully; each workload-set so fetched no longer
  lists the parent's pool.  If a membership-removal patch fails, the pass returns
  that error, issues no update of the parent and leaves the stored parents,
  finalizers included, as they were.
\<close>

theorem reconcileDelete_sequencing:
  assumes "keyed (store_yurtappsets c)"
      and "desiredComponentsOf r pa = Inr dcs"
      and "reconcileDelete r pa c = (out, c')"
  shows "calls c' = calls c @ issued c c' \<and>
         (\<forall>res. ((VUpdate, KPlatformAdmin, objKey pa), res) \<in> set (issued c c') \<longrightarrow>
            (\<exists>tr. issued c c' = tr @ [((VUpdate, KPlatformAdmin, objKey pa), res)] \<and>
                  removalTrace (Namespace pa) (map comp_Name dcs) tr \<and>
                  (\<forall>n\<in>set (map comp_Name dcs).
                     ((VGet, KYurtAppSet, (Namespace pa, n)), None) \<in> set tr \<longrightarrow>
                     \<not> listsPool c' (Namespace pa, n) (Spec_PoolName pa)))) \<and>
         (\<forall>cl err. (cl, Some err) \<in> set (issued c c') \<and> fst cl = VPatch \<longrightarrow>
            out = Fail err \<and> (\<forall>e\<in>set (issued c c'). fst (fst e) \<noteq> VUpdate) \<and>
            store_platformadmins c' = store_platformadmins c)"
proof -
  let ?upd = "(VUpdate, KPlatformAdmin, objKey pa)"
  obtain res c1 where rd: "rangeDelete r pa dcs c = (res, c1)" by (cases "rangeDelete r pa dcs c")
  from rangeDelete_trace_elim[OF assms(1) rd] obtain tr where tr:
    "calls c1 = calls c @ tr"
    "store_platformadmins c1 = store_platformadmins c"
    "\<forall>e\<in>set tr. fst (fst e) \<in> {VGet, VPatch}"
    "\<forall>cl err. (cl, Some err) \<in> set tr \<and> fst cl = VPatch \<longrightarrow> res = Fail err"
    "res = Ret () \<longrightarrow> removalTrace (Namespace pa) (map comp_Name dcs) tr \<and>
        (\<forall>n\<in>set (map comp_Name dcs).
           ((VGet, KYurtAppSet, (Namespace pa, n)), None) \<in> set tr \<longrightarrow>
           \<not> listsPool c1 (Namespace pa, n) (Spec_PoolName pa))" .
  have rdef: "reconcileDelete r pa c =
     (case res of
        Fail err \<Rightarrow> (Fail err, c1)
      | Panic p \<Rightarrow> (Panic p, c1)
      | Ret u \<Rightarrow>
          (case updatePlatformAdmin r (RemoveFinalizer pa PlatformAdminFinalizer) c1 of
             (Some err, c2) \<Rightarrow> (Fail err, c2)
           | (None, c2) \<Rightarrow> (Ret Result_zero, c2)))"
    using assms(2) rd by (simp add: reconcileDelete_def)
  show ?thesis
  proof (cases res)
    case (Ret u)
    obtain e c2 where up: "updatePlatformAdmin r (RemoveFinalizer pa PlatformAdminFinalizer) c1 = (e, c2)"
      by (cases "updatePlatformAdmin r (RemoveFinalizer pa PlatformAdminFinalizer) c1")
    from updatePlatformAdmin_effect[OF up]
    have c2: "calls c2 = calls c1 @ [(?upd, e)]" "store_yurtappsets c2 = store_yurtappsets c1"
      by simp_all
    have "snd (reconcileDelete r pa c) = c2" unfolding rdef using Ret up by (cases e) simp_all
    then have "c' = c2" using assms(3) by simp
    then have iss: "issued c c' = tr @ [(?upd, e)]" and cc: "calls c' = calls c @ tr @ [(?upd, e)]"
      using c2 tr(1) by (simp_all add: issued_def)
    have lp: "listsPool c' = listsPool c1" using \<open>c' = c2\<close> c2(2) by (intro listsPool_cong) simp
    have p3: "(cl, Some err) \<in> set (issued c c') \<Longrightarrow> fst cl \<noteq> VPatch" for cl err
    proof
      assume a: "(cl, Some err) \<in> set (issued c c')" "fst cl = VPatch"
      then have "(cl, Some err) \<in> set tr" using iss by auto
      with a(2) tr(4) have "res = Fail err" by blast
      with Ret show False by simp
    qed
    from tr(5) Ret have t5a: "removalTrace (Namespace pa) (map comp_Name dcs) tr"
      and t5b: "\<forall>n\<in>set (map comp_Name dcs).
           ((VGet, KYurtAppSet, (Namespace pa, n)), None) \<in> set tr \<longrightarrow>
           \<not> listsPool c' (Namespace pa, n) (Spec_PoolName pa)"
      by (simp_all add: lp)
    show ?thesis
    proof (intro conjI allI impI)
      show "calls c' = calls c @ issued c c'" using iss cc by simp
    next
      fix res' assume m: "(?upd, res') \<in> set (issued c c')"
      have "(?upd, res') \<notin> set tr" using tr(3) by force
      with m iss have "res' = e" by simp
      with iss t5a t5b show "\<exists>tr. issued c c' = tr @ [(?upd, res')] \<and>
                  removalTrace (Namespace pa) (map comp_Name dcs) tr \<and>
                  (\<forall>n\<in>set (map comp_Name dcs).
                     ((VGet, KYurtAppSet, (Namespace pa, n)), None) \<in> set tr \<longrightarrow>
                     \<not> listsPool c' (Namespace pa, n) (Spec_PoolName pa))"
        by (intro exI[of _ tr]) simp
    next
      fix cl err assume a: "(cl, Some err) \<in> set (issued c c') \<and> fst cl = VPatch"
      with p3 have False by blast
      then show "out = Fail err" "\<forall>e\<in>set (issued c c'). fst (fst e) \<noteq> VUpdate"
        "store_platformadmins c' = store_platformadmins c" by simp_all
    qed
  next
    case (Fail err0)
    have "reconcileDelete r pa c = (Fail err0, c1)" unfolding rdef using Fail by simp
    with assms(3) have o: "out = Fail err0" "c' = c1" by simp_all
    then have iss: "issued c c' = tr" using tr(1) by (simp add: issued_def)
    show ?thesis
    proof (intro conjI allI impI)
      show "calls c' = calls c @ issued c c'" using iss o tr(1) by simp
    next
      fix res' assume "(?upd, res') \<in> set (issued c c')"
      with iss tr(3) have False by force
      then show "\<exists>tr. issued c c' = tr @ [(?upd, res')] \<and>
                  removalTrace (Namespace pa) (map comp_Name dcs) tr \<and>
                  (\<forall>n\<in>set (map comp_Name dcs).
                     ((VGet, KYurtAppSet, (Namespace pa, n)), None) \<in> set tr \<longrightarrow>
                     \<not> listsPool c' (Namespace pa, n) (Spec_PoolName pa))" ..
    next
      fix cl err assume a: "(cl, Some err) \<in> set (issued c c') \<and> fst cl = VPatch"
      with iss tr(4) have "res = Fail err" by blast
      with Fail o show "out = Fail err" by simp
      show "\<forall>e\<in>set (issued c c'). fst (fst e) \<noteq> VUpdate" using iss tr(3) by auto
      show "store_platformadmins c' = store_platformadmins c" using o tr(2) by simp
    qed
  next
    case (Panic p)
    have "reconcileDelete r pa c = (Panic p, c1)" unfolding rdef using Panic by simp
    with assms(3) have o: "out = Panic p" "c' = c1" by simp_all
    then have iss: "issued c c' = tr" using tr(1) by (simp add: issued_def)
    show ?thesis
    proof (intro conjI allI impI)
      show "calls c' = calls c @ issued c c'" using iss o tr(1) by simp
    next
      fix res' assume "(?upd, res') \<in> set (issued c c')"
      with iss tr(3) have False by force
      then show "\<exists>tr. issued c c' = tr @ [(?upd, res')] \<and>
                  removalTrace (Namespace pa) (map comp_Name dcs) tr \<and>
                  (\<forall>n\<in>set (map comp_Name dcs).
                     ((VGet, KYurtAppSet, (Namespace pa, n)), None) \<in> set tr \<longrightarrow>
                     \<not> listsPool c' (Namespace pa, n) (Spec_PoolName pa))" ..
    next
      fix cl err assume a: "(cl, Some err) \<in> set (issued c c') \<and> fst cl = VPatch"
      with iss tr(4) have "res = Fail err" by blast
      with Panic show "out = Fail err" by simp
      show "\<forall>e\<in>set (issued c c'). fst (fst e) \<noteq> VUpdate" using iss tr(3) by auto
      show "store_platformadmins c' = store_platformadmins c" using o tr(2) by simp
    qed
  qed
qed

theorem reconcileDelete_sequencing_witness:
  "issued deleting_cluster
     (snd (reconcileDelete example_reconciler edgex_deleting deleting_cluster)) =
     [((VGet, KYurtAppSet, (''default'', ''foo'')), None),
      ((VPatch, KYurtAppSet, (''default'', ''foo'')), None),
      ((VUpdate, KPlatformAdmin, (''default'', ''edgex'')), None)] \<and>
   removalTrace ''default'' [''foo'']
     [((VGet, KYurtAppSet, (''default'', ''foo'')), None),
      ((VPatch, KYurtAppSet, (''default'', ''foo'')), None)] \<and>
   \<not> listsPool (snd (reconcileDelete example_reconciler edgex_deleting deleting_cluster))
        (''default'', ''foo'') ''hangzhou''"
proof -
  let ?c' = "snd (reconcileDelete example_reconciler edgex_deleting deleting_cluster)"
  let ?upd = "((VUpdate, KPlatformAdmin, (''default'', ''edgex'')), None :: error option)"
  have h1: "keyed (store_yurtappsets deleting_cluster)" by code_simp
  have h2: "desiredComponentsOf example_reconciler edgex_deleting = Inr [foo]" by code_simp
  have h3: "reconcileDelete example_reconciler edgex_deleting deleting_cluster =
              (fst (reconcileDelete example_reconciler edgex_deleting deleting_cluster), ?c')"
    by simp
  have ev: "issued deleting_cluster ?c' =
     [((VGet, KYurtAppSet, (''default'', ''foo'')), None),
      ((VPatch, KYurtAppSet, (''default'', ''foo'')), None), ?upd]"
    by code_simp
  have k: "objKey edgex_deleting = (''default'', ''edgex'')" "Namespace edgex_deleting = ''default''"
    "Spec_PoolName edgex_deleting = ''hangzhou''" "map comp_Name [foo] = [''foo'']"
    by (simp_all add: objKey_def edgex_deleting_def edgex_def foo_def)
  have "?upd \<in> set (issued deleting_cluster ?c')" unfolding ev by simp
  with reconcileDelete_sequencing[OF h1 h2 h3] obtain tr where
    tr: "issued deleting_cluster ?c' = tr @ [?upd]"
        "removalTrace ''default'' [''foo''] tr"
        "\<forall>n\<in>set [''foo'']. ((VGet, KYurtAppSet, (''default'', n)), None) \<in> set tr \<longrightarrow>
            \<not> listsPool ?c' (''default'', n) ''hangzhou''"
    unfolding k by blast
  from tr(1) ev have t: "tr = [((VGet, KYurtAppSet, (''default'', ''foo'')), None),
      ((VPatch, KYurtAppSet, (''default'', ''foo'')), None)]" by simp
  from tr(2,3) ev show ?thesis unfolding t by simp
qed

text \<open>
  C3.  The fetch of a workload-set in the deletion pass treats every error alike.
  With a client whose fetch of the workload-set \<open>foo\<close> fails with an error other than
  not-found, the pass skips \<open>foo\<close>, which is stored and lists the parent's pool, and
  goes on to remove the finalizer: the parent is released and gone while \<open>foo\<close> still
  lists the pool.  The finalizer has been removed although the membership removal
  has not been carried out for every desired workload-set.
\<close>

theorem reconcileDelete_skips_failed_fetch:
  "desiredComponentsOf flaky_reconciler edgex_deleting = Inr [foo] \<and>
   listsPool deleting_cluster (''default'', ''foo'') ''hangzhou'' \<and>
   fst (reconcileDelete flaky_reconciler edgex_deleting deleting_cluster) = Ret Result_zero \<and>
   map_of (store_platformadmins
             (snd (reconcileDelete flaky_reconciler edgex_deleting deleting_cluster)))
     (''default'', ''edgex'') = None \<and>
   listsPool (snd (reconcileDelete flaky_reconciler edgex_deleting deleting_cluster))
     (''default'', ''foo'') ''hangzhou'' \<and>
   issued deleting_cluster
     (snd (reconcileDelete flaky_reconciler edgex_deleting deleting_cluster)) =
     [((VGet, KYurtAppSet, (''default'', ''foo'')), Some (ApiFailure ''connection refused'')),
      ((VUpdate, KPlatformAdmin, (''default'', ''edgex'')), None)]"
  by code_simp

section \<open>The status update on the way out\<close>

text \<open>An invariant of the cluster that every step of the loop keeps is kept by the loop.\<close>

lemma rangeComponents_invariant:
  assumes "I c"
      and hs: "\<And>c dc. dc \<in> set dcs \<Longrightarrow> I c \<Longrightarrow> I (snd (handleService r pa dc c))"
      and gt: "\<And>c dc. dc \<in> set dcs \<Longrightarrow> I c \<Longrightarrow>
                 I (snd (apiGet r YurtAppSets (Namespace pa, comp_Name dc) c))"
      and hy: "\<And>c dc. dc \<in> set dcs \<Longrightarrow> I c \<Longrightarrow> I (snd (handleYurtAppSet r pa dc c))"
      and pt: "\<And>c0 c dc yas. dc \<in> set dcs \<Longrightarrow> I c0 \<Longrightarrow>
                 apiGet r YurtAppSets (Namespace pa, comp_Name dc) c0 = (Inr yas, c) \<Longrightarrow>
                 I (snd (apiPatch r YurtAppSets (joinPool pa yas) c))"
  shows "I (snd (snd (snd (rangeComponents r pa dcs ready need c))))"
  using assms
proof (induction dcs arbitrary: ready need c)
  case Nil
  then show ?case by simp
next
  case (Cons dc rest)
  let ?k = "(Namespace pa, comp_Name dc)"
  have IH: "I c' \<Longrightarrow> I (snd (snd (snd (rangeComponents r pa rest ready' need' c'))))"
    for c' ready' need'
    by (rule Cons.IH) (auto intro: Cons.prems(2,3,4,5))
  obtain e c1 where h: "handleService r pa dc c = (e, c1)" by (cases "handleService r pa dc c")
  have i1: "I c1" using Cons.prems(2)[of dc c] Cons.prems(1) h by simp
  obtain g c2 where ge: "apiGet r YurtAppSets ?k c1 = (g, c2)" by (cases "apiGet r YurtAppSets ?k c1")
  have i2: "I c2" using Cons.prems(3)[of dc c1] i1 ge by simp
  show ?case
  proof (cases e)
    case (Some err)
    with h i1 show ?thesis by (simp add: Let_def)
  next
    case None
    note e = None
    show ?thesis
    proof (cases g)
      case (Inl err)
      show ?thesis
      proof (cases "err = NotFound")
        case False
        with e h ge Inl i2 show ?thesis by (simp add: Let_def)
      next
        case True
        obtain w c3 where hy: "handleYurtAppSet r pa dc c2 = (w, c3)"
          by (cases "handleYurtAppSet r pa dc c2")
        have i3: "I c3" using Cons.prems(4)[of dc c2] i2 hy by simp
        show ?thesis using e h ge Inl True hy i3 IH[OF i3]
          by (cases w) (simp_all add: Let_def)
      qed
    next
      case (Inr yas)
      show ?thesis
      proof (cases "map_of (Status_PoolReplicas yas) (Spec_PoolName pa) \<noteq> None")
        case True
        with e h ge Inr IH[OF i2] show ?thesis by (simp add: Let_def)
      next
        case False
        obtain w c3 where pw: "apiPatch r YurtAppSets (joinPool pa yas) c2 = (w, c3)"
          by (cases "apiPatch r YurtAppSets (joinPool pa yas) c2")
        have i3: "I c3" using Cons.prems(5)[of dc c1 yas c2] i1 ge Inr pw by simp
        show ?thesis using e h ge Inr False pw i3 IH[OF i3]
          by (cases w) (simp_all add: Let_def)
      qed
    qed
  qed
qed

lemma rangeComponents_calls:
  "prefix (calls c) (calls (snd (snd (snd (rangeComponents r pa dcs ready need c)))))"
proof (rule rangeComponents_invariant[where I = "\<lambda>c'. prefix (calls c) (calls c')"])
  show "prefix (calls c) (calls c)" by simp
next
  fix c' :: cluster and dc assume "prefix (calls c) (calls c')"
  then show "prefix (calls c) (calls (snd (handleService r pa dc c')))"
    using handleService_calls[of c' r pa dc] by (rule prefix_order.trans)
next
  fix c' :: cluster and dc assume "prefix (calls c) (calls c')"
  then show "prefix (calls c) (calls (snd (apiGet r YurtAppSets (Namespace pa, comp_Name dc) c')))"
    using apiGet_calls[of c' r YurtAppSets] by (rule prefix_order.trans)
next
  fix c' :: cluster and dc assume "prefix (calls c) (calls c')"
  then show "prefix (calls c) (calls (snd (handleYurtAppSet r pa dc c')))"
    using handleYurtAppSet_calls[of c' r pa dc] by (rule prefix_order.trans)
next
  fix c0 c' :: cluster and dc yas
  assume "prefix (calls c) (calls c0)"
    and g: "apiGet r YurtAppSets (Namespace pa, comp_Name dc) c0 = (Inr yas, c')"
  then have "prefix (calls c) (calls c')"
    using apiGet_calls[of c0 r YurtAppSets "(Namespace pa, comp_Name dc)"]
    by (auto intro: prefix_order.trans)
  then show "prefix (calls c) (calls (snd (apiPatch r YurtAppSets (joinPool pa yas) c')))"
    using apiWrite_calls[of YurtAppSets c' VPatch r "joinPool pa yas"]
    by (auto intro: prefix_order.trans)
qed

lemma reconcileComponent_calls:
  "prefix (calls c) (calls (snd (snd (reconcileComponent r pa st c))))"
proof (cases "desiredComponentsOf r pa")
  case (Inl err)
  then show ?thesis by (simp add: reconcileComponent_def)
next
  case (Inr dcs)
  obtain res ready need c1 where rc: "rangeComponents r pa dcs 0 [] c = (res, ready, need, c1)"
    by (cases "rangeComponents r pa dcs 0 [] c") auto
  then have p1: "prefix (calls c) (calls c1)"
    using rangeComponents_calls[of c r pa dcs 0 "[]"] by simp
  have p2: "prefix (calls c1)
     (calls (collectUnneeded r YurtAppSets pa LabelDeployment need
              (collectUnneeded r Services pa LabelService need c1)))"
    using collectUnneeded_calls[of Services c1 r pa LabelService need]
          collectUnneeded_calls[of YurtAppSets "collectUnneeded r Services pa LabelService need c1"
             r pa LabelDeployment need]
    by (auto intro: prefix_order.trans)
  show ?thesis using Inr rc p1 p2
    by (cases res) (auto simp: reconcileComponent_def Let_def intro: prefix_order.trans)
qed

lemma reconcileNormal_calls:
  "prefix (calls c) (calls (snd (snd (reconcileNormal r pa st c))))"
proof -
  define pa' where "pa' = (AddFinalizer pa PlatformAdminFinalizer)
      \<lparr>Status := (Status (AddFinalizer pa PlatformAdminFinalizer))\<lparr>Initialized := True\<rparr>\<rparr>"
  obtain b c1 where cm: "reconcileConfigmap r pa' c = (b, c1)" by (cases "reconcileConfigmap r pa' c")
  then have p1: "prefix (calls c) (calls c1)" using reconcileConfigmap_calls[of c r pa'] by simp
  show ?thesis
  proof (cases "b = Ret True")
    case False
    then show ?thesis using cm p1
      by (cases b) (auto simp: reconcileNormal_def Let_def pa'_def[symmetric])
  next
    case True
    define st1 where "st1 = SetPlatformAdminCondition st
        (NewPlatformAdminCondition ConfigmapAvailableCondition True [] [])"
    obtain b2 st2 c2 where rc: "reconcileComponent r pa' st1 c1 = (b2, st2, c2)"
      by (cases "reconcileComponent r pa' st1 c1") auto
    then have p2: "prefix (calls c) (calls c2)"
      using reconcileComponent_calls[of c1 r pa' st1] p1 by (auto intro: prefix_order.trans)
    show ?thesis
    proof (cases "b2 = Ret True")
      case False
      then show ?thesis using True cm rc p2
        by (cases b2) (auto simp: reconcileNormal_def Let_def pa'_def[symmetric] st1_def[symmetric])
    next
      case t2: True
      obtain e c3 where up: "updatePlatformAdmin r pa' c2 = (e, c3)"
        by (cases "updatePlatformAdmin r pa' c2")
      then have p3: "prefix (calls c) (calls c3)"
        using updatePlatformAdmin_calls[of c2 r pa'] p2 by (auto intro: prefix_order.trans)
      show ?thesis using True t2 cm rc up p3
        by (cases e) (auto simp: reconcileNormal_def Let_def pa'_def[symmetric] st1_def[symmetric])
    qed
  qed
qed

lemma statusUpdate_calls:
  "calls (snd (statusUpdate r pa c)) =
     calls c @ [((VStatusUpdate, KPlatformAdmin, objKey pa), fst (statusUpdate r pa c))]"
  by (simp add: statusUpdate_def split: option.splits)

lemma deferredStatusUpdate_calls:
  "calls (snd (deferredStatusUpdate r pa (res, st, c))) =
     calls c @ [((VStatusUpdate, KPlatformAdmin, objKey pa),
                 fst (statusUpdate r (pa\<lparr>Status := st\<rparr>) c))]"
proof -
  obtain e c' where su: "statusUpdate r (pa\<lparr>Status := st\<rparr>) c = (e, c')"
    by (cases "statusUpdate r (pa\<lparr>Status := st\<rparr>) c")
  have k: "objKey (pa\<lparr>Status := st\<rparr>) = objKey pa" by (simp add: objKey_def)
  have "snd (deferredStatusUpdate r pa (res, st, c)) = c'"
    using su by (cases e; cases res) (simp_all add: deferredStatusUpdate_def)
  then show ?thesis using statusUpdate_calls[of r "pa\<lparr>Status := st\<rparr>" c] su k by simp
qed

text \<open>The deletion pass issues fetches and patches of workload-sets and one update.\<close>

lemma rangeDelete_verbs:
  "\<exists>tr. calls (snd (rangeDelete r pa dcs c)) = calls c @ tr \<and>
        (\<forall>e\<in>set tr. fst (fst e) \<in> {VGet, VPatch})"
proof (induction dcs arbitrary: c)
  case Nil
  then show ?case by simp
next
  case (Cons dc rest)
  let ?k = "(Namespace pa, comp_Name dc)"
  obtain g c1 where ge: "apiGet r YurtAppSets ?k c = (g, c1)" by (cases "apiGet r YurtAppSets ?k c")
  have c1: "\<exists>e. calls c1 = calls c @ [((VGet, KYurtAppSet, ?k), e)]"
    using apiGet_snd[of r YurtAppSets ?k c] ge by auto
  show ?case
  proof (cases g)
    case (Inl err)
    from Cons.IH[of c1] obtain tr where
      "calls (snd (rangeDelete r pa rest c1)) = calls c1 @ tr" "\<forall>e\<in>set tr. fst (fst e) \<in> {VGet, VPatch}"
      by blast
    with c1 ge Inl show ?thesis by auto
  next
    case (Inr yas)
    show ?thesis
    proof (cases "removePool (Spec_PoolName pa) (Spec_Topology_Pools yas)")
      case (Inl p)
      with c1 ge Inr show ?thesis by auto
    next
      case rp: (Inr pools)
      let ?yas = "yas\<lparr>Spec_Topology_Pools := pools\<rparr>"
      obtain w c2 where pw: "apiPatch r YurtAppSets ?yas c1 = (w, c2)"
        by (cases "apiPatch r YurtAppSets ?yas c1")
      have c2: "calls c2 = calls c1 @ [((VPatch, KYurtAppSet, objKey ?yas), w)]"
        using pw by (auto simp: apiWrite_def split: option.splits)
      show ?thesis
      proof (cases w)
        case (Some err)
        with c1 c2 ge Inr rp pw show ?thesis by auto
      next
        case None
        from Cons.IH[of c2] obtain tr where
          "calls (snd (rangeDelete r pa rest c2)) = calls c2 @ tr"
          "\<forall>e\<in>set tr. fst (fst e) \<in> {VGet, VPatch}"
          by blast
        with c1 c2 ge Inr rp pw None show ?thesis by auto
      qed
    qed
  qed
qed

lemma reconcileDelete_verbs:
  "\<exists>tr. calls (snd (reconcileDelete r pa c)) = calls c @ tr \<and>
        (\<forall>e\<in>set tr. fst (fst e) \<in> {VGet, VPatch, VUpdate})"
proof (cases "desiredComponentsOf r pa")
  case (Inl err)
  then show ?thesis by (simp add: reconcileDelete_def)
next
  case (Inr dcs)
  obtain res c1 where rd: "rangeDelete r pa dcs c = (res, c1)" by (cases "rangeDelete r pa dcs c")
  from rangeDelete_verbs[of r pa dcs c] rd obtain tr where
    tr: "calls c1 = calls c @ tr" "\<forall>e\<in>set tr. fst (fst e) \<in> {VGet, VPatch}" by auto
  show ?thesis
  proof (cases res)
    case (Ret u)
    obtain e c2 where up: "updatePlatformAdmin r (RemoveFinalizer pa PlatformAdminFinalizer) c1 = (e, c2)"
      by (cases "updatePlatformAdmin r (RemoveFinalizer pa PlatformAdminFinalizer) c1")
    from updatePlatformAdmin_effect[OF up] have
      c2: "calls c2 = calls c1 @ [((VUpdate, KPlatformAdmin, objKey pa), e)]" by simp
    have "snd (reconcileDelete r pa c) = c2"
      using Inr rd Ret up by (cases e) (simp_all add: reconcileDelete_def)
    with c2 tr show ?thesis by auto
  next
    case (Fail err)
    with Inr rd tr show ?thesis by (auto simp: reconcileDelete_def)
  next
    case (Panic p)
    with Inr rd tr show ?thesis by (auto simp: reconcileDelete_def)
  qed
qed

text \<open>
  C2 (as amended).  In every invocation of \<open>Reconcile\<close> whose fetch of the parent
  succeeds and whose parent is not marked for deletion, the last call issued is a
  status update of the parent, whatever the outcome: success, requeue, error, or a
  panic.  When the parent is marked for deletion, the pass issues no status update
  at all, on any of its exit paths.
\<close>

theorem Reconcile_status_update:
  assumes "apiGet r PlatformAdmins request c = (Inr platformAdmin, c1)"
  shows "(DeletionTimestamp platformAdmin = None \<longrightarrow>
            (\<exists>tr err. issued c (snd (Reconcile r request c)) =
               tr @ [((VStatusUpdate, KPlatformAdmin, objKey platformAdmin), err)])) \<and>
         (DeletionTimestamp platformAdmin \<noteq> None \<longrightarrow>
            (\<forall>e\<in>set (issued c (snd (Reconcile r request c))). fst (fst e) \<noteq> VStatusUpdate))"
proof (intro conjI impI)
  from apiGet_Inr[OF assms]
  have c1: "calls c1 = calls c @ [((VGet, KPlatformAdmin, request), None)]"
    by (simp add: PlatformAdmins_def)
  {
    assume live: "DeletionTimestamp platformAdmin = None"
    obtain res st c2 where rn: "reconcileNormal r platformAdmin (Status platformAdmin) c1 = (res, st, c2)"
      by (cases "reconcileNormal r platformAdmin (Status platformAdmin) c1") auto
    from reconcileNormal_calls[of c1 r platformAdmin "Status platformAdmin"] rn
    obtain ws where ws: "calls c2 = calls c1 @ ws" by (auto simp: prefix_def)
    have "Reconcile r request c = deferredStatusUpdate r platformAdmin (res, st, c2)"
      using assms live rn by (simp add: Reconcile_def)
    then have "calls (snd (Reconcile r request c)) =
       calls c2 @ [((VStatusUpdate, KPlatformAdmin, objKey platformAdmin),
                    fst (statusUpdate r (platformAdmin\<lparr>Status := st\<rparr>) c2))]"
      by (simp add: deferredStatusUpdate_calls)
    then have "issued c (snd (Reconcile r request c)) =
       (((VGet, KPlatformAdmin, request), None) # ws) @
         [((VStatusUpdate, KPlatformAdmin, objKey platformAdmin),
           fst (statusUpdate r (platformAdmin\<lparr>Status := st\<rparr>) c2))]"
      using ws c1 by (simp add: issued_def)
    then show "\<exists>tr err. issued c (snd (Reconcile r request c)) =
               tr @ [((VStatusUpdate, KPlatformAdmin, objKey platformAdmin), err)]"
      by blast
  }
  {
    assume dead: "DeletionTimestamp platformAdmin \<noteq> None"
    have "Reconcile r request c = reconcileDelete r platformAdmin c1"
      using assms dead by (simp add: Reconcile_def)
    with reconcileDelete_verbs[of r platformAdmin c1] obtain tr where
      tr: "calls (snd (Reconcile r request c)) = calls c1 @ tr"
          "\<forall>e\<in>set tr. fst (fst e) \<in> {VGet, VPatch, VUpdate}" by auto
    then have "issued c (snd (Reconcile r request c)) = ((VGet, KPlatformAdmin, request), None) # tr"
      using c1 by (simp add: issued_def)
    with tr(2) show "\<forall>e\<in>set (issued c (snd (Reconcile r request c))). fst (fst e) \<noteq> VStatusUpdate"
      by auto
  }
qed

theorem Reconcile_status_update_witness:
  "(\<exists>tr err. issued fresh_cluster
       (snd (Reconcile example_reconciler (''default'', ''edgex'') fresh_cluster)) =
       tr @ [((VStatusUpdate, KPlatformAdmin, (''default'', ''edgex'')), err)]) \<and>
   VStatusUpdate \<notin> set (map (\<lambda>e. fst (fst e))
      (issued deleting_cluster
         (snd (Reconcile example_reconciler (''default'', ''edgex'') deleting_cluster))))"
proof -
  have g1: "apiGet example_reconciler PlatformAdmins (''default'', ''edgex'') fresh_cluster =
              (Inr edgex, called (VGet, KPlatformAdmin, (''default'', ''edgex'')) None fresh_cluster)"
    by (simp add: apiGet_def example_reconciler_def PlatformAdmins_def fresh_cluster_def)
  have g2: "apiGet example_reconciler PlatformAdmins (''default'', ''edgex'') deleting_cluster =
              (Inr edgex_deleting,
               called (VGet, KPlatformAdmin, (''default'', ''edgex'')) None deleting_cluster)"
    by (simp add: apiGet_def example_reconciler_def PlatformAdmins_def deleting_cluster_def)
  have d: "DeletionTimestamp edgex = None" "DeletionTimestamp edgex_deleting \<noteq> None"
    "objKey edgex = (''default'', ''edgex'')"
    by (simp_all add: edgex_def edgex_deleting_def objKey_def)
  from Reconcile_status_update[OF g1] Reconcile_status_update[OF g2] d
  show ?thesis by auto
qed

text \<open>
  C2 as stated does not hold: the parent of this cluster is fetched, it is marked for
  deletion, and the pass ends without any status update.
\<close>

theorem Reconcile_deleting_no_status_update:
  "fst (apiGet example_reconciler PlatformAdmins (''default'', ''edgex'') deleting_cluster) =
     Inr edgex_deleting \<and>
   fst (Reconcile example_reconciler (''default'', ''edgex'') deleting_cluster) = Ret Result_zero \<and>
   issued deleting_cluster
     (snd (Reconcile example_reconciler (''default'', ''edgex'') deleting_cluster)) =
     [((VGet, KPlatformAdmin, (''default'', ''edgex'')), None),
      ((VGet, KYurtAppSet, (''default'', ''foo'')), None),
      ((VPatch, KYurtAppSet, (''default'', ''foo'')), None),
      ((VUpdate, KPlatformAdmin, (''default'', ''edgex'')), None)]"
  by code_simp

section \<open>Collecting what is no longer needed\<close>

lemma apiDelete_effect:
  assumes "lawful R" "Client r (length (calls c)) (VDelete, res_kind R, objKey obj) = None"
      and "map_of (res_objects R c) (objKey obj) \<noteq> None"
  shows "res_objects R (snd (apiDelete r R obj c)) = AList.delete (objKey obj) (res_objects R c)"
  using assms by (auto simp: apiDelete_def callError_def split: option.splits)

lemma apiWrite_effect:
  assumes "lawful R" "Client r (length (calls c)) (v, res_kind R, objKey obj) = None"
      and "map_of (res_objects R c) (objKey obj) \<noteq> None"
  shows "res_objects R (snd (apiWrite v r R obj c)) = AList.update (objKey obj) obj (res_objects R c)"
  using assms by (auto simp: apiWrite_def callError_def split: option.splits)

lemma apiDelete_other:
  "lawful R \<Longrightarrow> k \<noteq> objKey obj \<Longrightarrow>
   map_of (res_objects R (snd (apiDelete r R obj c))) k = map_of (res_objects R c) k"
  by (auto simp: apiDelete_def callError_def delete_conv' split: option.splits)

lemma apiWrite_other:
  "lawful R \<Longrightarrow> k \<noteq> objKey obj \<Longrightarrow>
   map_of (res_objects R (snd (apiWrite v r R obj c))) k = map_of (res_objects R c) k"
  by (auto simp: apiWrite_def callError_def update_conv' split: option.splits)

lemma objKey_owners [simp]: "objKey (obj\<lparr>OwnerReferences := os\<rparr>) = objKey obj"
  by (simp add: objKey_def)

lemma removeOwner_other:
  "lawful R \<Longrightarrow> k \<noteq> objKey s \<Longrightarrow>
   map_of (res_objects R (snd (removeOwner r R pa s c))) k = map_of (res_objects R c) k"
  by (simp add: removeOwner_def Let_def apiDelete_other apiWrite_other split: option.splits)

lemma removeUnneeded_other:
  "lawful R \<Longrightarrow> \<forall>s\<in>set items. objKey s \<noteq> k \<Longrightarrow>
   map_of (res_objects R (removeUnneeded r R pa need items c)) k = map_of (res_objects R c) k"
proof (induction items arbitrary: c)
  case Nil
  then show ?case by simp
next
  case (Cons s items)
  then have k: "k \<noteq> objKey s" and r: "\<forall>s\<in>set items. objKey s \<noteq> k" by auto
  show ?case
  proof (cases "Name s \<in> set need")
    case True
    with Cons.IH[OF Cons.prems(1) r] show ?thesis by simp
  next
    case False
    with Cons.IH[OF Cons.prems(1) r, of "snd (removeOwner r R pa s c)"]
         removeOwner_other[OF Cons.prems(1) k, of r pa c]
    show ?thesis by simp
  qed
qed

text \<open>The owner references left when the reference at \<open>i\<close> is swapped out.\<close>

lemma swap_remove_owner:
  assumes "firstIndex P owners = Some i"
  shows "P (owners ! i) \<and>
         mset (take (length owners - 1) (owners[i := owners ! (length owners - 1)])) =
           mset owners - {#owners ! i#}"
proof -
  from assms have i: "i < length owners" and p: "P (owners ! i)"
    by (simp_all add: firstIndex_Some)
  from swap_last_mset[OF i, of owners] have
    "add_mset (owners ! i) (mset (take (length owners - 1) (owners[i := owners ! (length owners - 1)])))
       = mset owners" by simp
  then have "mset (take (length owners - 1) (owners[i := owners ! (length owners - 1)])) =
           mset owners - {#owners ! i#}"
    by (metis add_mset_remove_trivial)
  with p show ?thesis by simp
qed

lemma removeOwner_self:
  assumes "lawful R"
      and "\<forall>n k. Client r n (VDelete, res_kind R, k) = None \<and> Client r n (VUpdate, res_kind R, k) = None"
      and "map_of (res_objects R c) (objKey s) = Some s"
      and "firstIndex (\<lambda>owner. ref_UID owner = UID pa) (OwnerReferences s) = Some i"
  shows "map_of (res_objects R (snd (removeOwner r R pa s c))) (objKey s) =
           (let owners = OwnerReferences s;
                owners' = take (length owners - 1) (owners[i := owners ! (length owners - 1)])
            in if owners' = [] then None else Some (s\<lparr>OwnerReferences := owners'\<rparr>))"
proof -
  define owners' where "owners' = take (length (OwnerReferences s) - 1)
      ((OwnerReferences s)[i := OwnerReferences s ! (length (OwnerReferences s) - 1)])"
  have st: "map_of (res_objects R c) (objKey s) \<noteq> None" using assms(3) by simp
  have ro: "removeOwner r R pa s c =
     (if length owners' = 0 then apiDelete r R s c
      else apiUpdate r R (s\<lparr>OwnerReferences := owners'\<rparr>) c)"
    using assms(4) by (simp add: removeOwner_def Let_def owners'_def)
  have goal: "map_of (res_objects R (snd (removeOwner r R pa s c))) (objKey s) =
           (if owners' = [] then None else Some (s\<lparr>OwnerReferences := owners'\<rparr>))"
  proof (cases "owners' = []")
    case True
    have nf: "Client r (length (calls c)) (VDelete, res_kind R, objKey s) = None"
      using assms(2) by blast
    have "res_objects R (snd (apiDelete r R s c)) = AList.delete (objKey s) (res_objects R c)"
      using apiDelete_effect[OF assms(1) nf st] .
    then show ?thesis unfolding ro using True by (simp add: delete_conv')
  next
    case False
    have nf: "Client r (length (calls c)) (VUpdate, res_kind R, objKey s) = None"
      using assms(2) by blast
    have "res_objects R (snd (apiUpdate r R (s\<lparr>OwnerReferences := owners'\<rparr>) c)) =
            AList.update (objKey s) (s\<lparr>OwnerReferences := owners'\<rparr>) (res_objects R c)"
      using apiWrite_effect[OF assms(1), of r c VUpdate "s\<lparr>OwnerReferences := owners'\<rparr>"]
            nf st by simp
    then show ?thesis unfolding ro using False by (simp add: update_conv')
  qed
  then show ?thesis by (simp add: Let_def owners'_def)
qed

lemma removeUnneeded_effect:
  assumes "lawful R"
      and "\<forall>n k. Client r n (VDelete, res_kind R, k) = None \<and> Client r n (VUpdate, res_kind R, k) = None"
      and "distinct (map objKey items)"
      and "t \<in> set items" "Name t \<notin> set need"
      and "map_of (res_objects R c) (objKey t) = Some t"
      and "firstIndex (\<lambda>owner. ref_UID owner = UID pa) (OwnerReferences t) = Some i"
  shows "map_of (res_objects R (removeUnneeded r R pa need items c)) (objKey t) =
           (let owners = OwnerReferences t;
                owners' = take (length owners - 1) (owners[i := owners ! (length owners - 1)])
            in if owners' = [] then None else Some (t\<lparr>OwnerReferences := owners'\<rparr>))"
  using assms(3,4,6)
proof (induction items arbitrary: c)
  case Nil
  then show ?case by simp
next
  case (Cons s items)
  show ?case
  proof (cases "s = t")
    case True
    have "objKey t \<notin> objKey ` set items" using Cons.prems(1) True by simp
    have others: "\<forall>s'\<in>set items. objKey s' \<noteq> objKey t"
    proof
      fix s' assume "s' \<in> set items"
      then have "objKey s' \<in> objKey ` set items" by (rule imageI)
      with \<open>objKey t \<notin> objKey ` set items\<close> show "objKey s' \<noteq> objKey t" by metis
    qed
    have "map_of (res_objects R (removeUnneeded r R pa need items (snd (removeOwner r R pa t c)))) (objKey t)
          = map_of (res_objects R (snd (removeOwner r R pa t c))) (objKey t)"
      using removeUnneeded_other[OF assms(1) others] .
    also have "\<dots> = (let owners = OwnerReferences t;
                owners' = take (length owners - 1) (owners[i := owners ! (length owners - 1)])
            in if owners' = [] then None else Some (t\<lparr>OwnerReferences := owners'\<rparr>))"
      using removeOwner_self[OF assms(1,2) Cons.prems(3) assms(7)] .
    finally show ?thesis using True assms(5) by simp
  next
    case False
    with Cons.prems have tin: "t \<in> set items" and d: "distinct (map objKey items)"
      by auto
    have "objKey s \<notin> objKey ` set items" using Cons.prems(1) by simp
    moreover have "objKey t \<in> objKey ` set items" using tin by (rule imageI)
    ultimately have k: "objKey t \<noteq> objKey s" by metis
    show ?thesis
    proof (cases "Name s \<in> set need")
      case True
      with Cons.IH[OF d tin Cons.prems(3)] show ?thesis by simp
    next
      case False
      have "map_of (res_objects R (snd (removeOwner r R pa s c))) (objKey t) = Some t"
        using removeOwner_other[OF assms(1) k, of r pa c] Cons.prems(3) by simp
      from Cons.IH[OF d tin this] False show ?thesis by simp
    qed
  qed
qed


lemma removeUnneeded_at:
  assumes "lawful R"
      and "\<forall>n k. Client r n (VDelete, res_kind R, k) = None \<and> Client r n (VUpdate, res_kind R, k) = None"
      and "distinct (map objKey items)"
      and "t \<in> set items" "Name t \<notin> set need"
      and "map_of (res_objects R c) (objKey t) = Some t"
      and "firstIndex (\<lambda>owner. ref_UID owner = UID pa) (OwnerReferences t) = Some i"
  shows "map_of (res_objects R (removeUnneeded r R pa need items c)) (objKey t) = withoutOwnerAt i t"
  using removeUnneeded_effect[OF assms] by (simp add: withoutOwnerAt_def)

lemma keyed_keys: "keyed xs \<Longrightarrow> map objKey (map snd xs) = map fst xs"
  by (induction xs) (auto simp: keyed_def)

lemma apiList_ok:
  assumes "Client r (length (calls c)) (VList, res_kind R, (ns, v)) = None"
  shows "apiList r R ns v c =
     (Inr (filter (\<lambda>obj. Namespace obj = ns \<and> map_of (Labels obj) LabelPlatformAdminGenerate = Some v)
             (map snd (res_objects R c))),
      called (VList, res_kind R, (ns, v)) None c)"
  using assms by (simp add: apiList_def callError_def)

lemma collectUnneeded_effect:
  assumes "lawful R" "collects r (res_kind R)" "wellKeyed (res_objects R c)"
      and "map_of (res_objects R c) k = Some t" "generatedBy pa label t"
      and "Name t \<notin> set need"
      and "firstIndex (\<lambda>owner. ref_UID owner = UID pa) (OwnerReferences t) = Some i"
  shows "map_of (res_objects R (collectUnneeded r R pa label need c)) k = withoutOwnerAt i t"
proof -
  let ?P = "\<lambda>obj. Namespace obj = Namespace pa \<and> map_of (Labels obj) LabelPlatformAdminGenerate = Some label"
  let ?items = "filter ?P (map snd (res_objects R c))"
  let ?c1 = "called (VList, res_kind R, (Namespace pa, label)) None c"
  have nf: "Client r (length (calls c)) (VList, res_kind R, (Namespace pa, label)) = None"
    using assms(2) unfolding collects_def by blast
  have nf2: "\<forall>n k. Client r n (VDelete, res_kind R, k) = None \<and> Client r n (VUpdate, res_kind R, k) = None"
    using assms(2) unfolding collects_def by blast
  have cu: "collectUnneeded r R pa label need c = removeUnneeded r R pa need ?items ?c1"
    using apiList_ok[OF nf] by (simp add: collectUnneeded_def)
  have kd: "keyed (res_objects R c)" and ds: "distinct (map fst (res_objects R c))"
    using assms(3) by (simp_all add: wellKeyed_def)
  have kt: "objKey t = k" using keyed_lookup[OF kd assms(4)] .
  have "distinct (map objKey (map snd (res_objects R c)))"
    unfolding keyed_keys[OF kd] using ds .
  then have d: "distinct (map objKey ?items)" by (rule distinct_map_filter)
  have "t \<in> set (map snd (res_objects R c))"
    using assms(4) by (metis map_of_SomeD set_zip_rightD zip_map_fst_snd)
  then have tin: "t \<in> set ?items" using assms(5) by (simp add: generatedBy_def)
  have st: "map_of (res_objects R ?c1) (objKey t) = Some t"
    using assms(1,4) kt by simp
  show ?thesis
    unfolding cu using removeUnneeded_at[OF assms(1) nf2 d tin assms(6) st assms(7)] kt by simp
qed

text \<open>
  Creating and writing an object keeps a store well keyed and leaves the objects
  under other keys alone.
\<close>

lemma wellKeyed_append:
  "wellKeyed xs \<Longrightarrow> map_of xs (objKey obj) = None \<Longrightarrow> wellKeyed (xs @ [(objKey obj, obj)])"
  by (auto simp: wellKeyed_def keyed_def map_of_eq_None_iff)

lemma wellKeyed_update: "wellKeyed xs \<Longrightarrow> wellKeyed (AList.update (objKey obj) obj xs)"
  by (simp add: wellKeyed_def distinct_update keyed_update)

lemma wellKeyed_delete: "wellKeyed xs \<Longrightarrow> wellKeyed (AList.delete k xs)"
  by (auto simp: wellKeyed_def keyed_def list_all_iff AList.delete_eq distinct_map_filter)

lemma apiCreate_objects:
  "lawful R \<Longrightarrow>
   res_objects R (snd (apiCreate r R obj c)) = res_objects R c \<or>
   (map_of (res_objects R c) (objKey obj) = None \<and>
    res_objects R (snd (apiCreate r R obj c)) = res_objects R c @ [(objKey obj, obj)])"
  by (auto simp: apiCreate_def callError_def split: option.splits)

lemma apiWrite_objects:
  "lawful R \<Longrightarrow>
   res_objects R (snd (apiWrite v r R obj c)) = res_objects R c \<or>
   res_objects R (snd (apiWrite v r R obj c)) = AList.update (objKey obj) obj (res_objects R c)"
  by (auto simp: apiWrite_def callError_def split: option.splits)

lemma apiDelete_objects:
  "lawful R \<Longrightarrow>
   res_objects R (snd (apiDelete r R obj c)) = res_objects R c \<or>
   res_objects R (snd (apiDelete r R obj c)) = AList.delete (objKey obj) (res_objects R c)"
  by (auto simp: apiDelete_def callError_def split: option.splits)

lemma apiCreate_kept:
  assumes "lawful R" "wellKeyed (res_objects R c)"
  shows "wellKeyed (res_objects R (snd (apiCreate r R obj c))) \<and>
         (k \<noteq> objKey obj \<longrightarrow>
            map_of (res_objects R (snd (apiCreate r R obj c))) k = map_of (res_objects R c) k)"
  using apiCreate_objects[OF assms(1), of r obj c] assms(2)
  by (auto simp: wellKeyed_append map_add_def split: option.splits)

lemma apiWrite_kept:
  assumes "lawful R" "wellKeyed (res_objects R c)"
  shows "wellKeyed (res_objects R (snd (apiWrite v r R obj c))) \<and>
         (k \<noteq> objKey obj \<longrightarrow>
            map_of (res_objects R (snd (apiWrite v r R obj c))) k = map_of (res_objects R c) k)"
  using apiWrite_objects[OF assms(1), of v r obj c] assms(2)
  by (auto simp: wellKeyed_update update_conv')

lemma apiGet_objects [simp]:
  "lawful R \<Longrightarrow> res_objects R (snd (apiGet r R' k c)) = res_objects R c"
  using apiGet_snd[of r R' k c] by auto

lemma CreateOrUpdate_kept:
  assumes "lawful R" "wellKeyed (res_objects R c)"
      and f: "\<And>x. objKey (f x) = objKey x"
  shows "wellKeyed (res_objects R (snd (CreateOrUpdate r R obj f c))) \<and>
         (k \<noteq> objKey obj \<longrightarrow>
            map_of (res_objects R (snd (CreateOrUpdate r R obj f c))) k = map_of (res_objects R c) k)"
proof -
  obtain g c1 where ge: "apiGet r R (objKey obj) c = (g, c1)" by (cases "apiGet r R (objKey obj) c")
  have o1: "res_objects R c1 = res_objects R c"
    using apiGet_objects[OF assms(1), of r R "objKey obj" c] ge by simp
  then have w1: "wellKeyed (res_objects R c1)" using assms(2) by simp
  show ?thesis
  proof (cases g)
    case (Inl err)
    show ?thesis
    proof (cases "err = NotFound")
      case False
      with ge Inl o1 assms(2) show ?thesis by (simp add: CreateOrUpdate_def)
    next
      case True
      with ge Inl have "snd (CreateOrUpdate r R obj f c) = snd (apiCreate r R (f obj) c1)"
        by (simp add: CreateOrUpdate_def)
      with apiCreate_kept[OF assms(1) w1, of r "f obj" k] o1 f show ?thesis by simp
    qed
  next
    case (Inr existing)
    with ge have "map_of (res_objects R c) (objKey obj) = Some existing"
      using apiGet_Inr[of r R "objKey obj" c existing c1] by simp
    moreover have "keyed (res_objects R c)" using assms(2) by (simp add: wellKeyed_def)
    ultimately have ke: "objKey existing = objKey obj" by (simp add: keyed_lookup)
    show ?thesis
    proof (cases "existing = f existing")
      case True
      with ge Inr o1 assms(2) show ?thesis by (simp add: CreateOrUpdate_def)
    next
      case False
      with ge Inr have "snd (CreateOrUpdate r R obj f c) = snd (apiUpdate r R (f existing) c1)"
        by (simp add: CreateOrUpdate_def)
      with apiWrite_kept[OF assms(1) w1, of VUpdate r "f existing" k] o1 f ke show ?thesis by simp
    qed
  qed
qed

lemma objKey_upsert [simp]: "objKey (upsertOwnerRef ref obj) = objKey obj"
  by (simp add: upsertOwnerRef_def objKey_def split: option.splits)

lemma objKey_SetOwnerReference [simp]: "objKey (SetOwnerReference pa obj) = objKey obj"
  by (simp add: SetOwnerReference_def)

lemma objKey_SetControllerReference [simp]: "objKey (SetControllerReference pa obj) = objKey obj"
  by (simp add: SetControllerReference_def)

lemma objKey_joinPool [simp]: "objKey (joinPool pa yas) = objKey yas"
  by (simp add: joinPool_def Let_def objKey_def SetOwnerReference_def upsertOwnerRef_def
        split: option.splits)

lemma Services_simps [simp]:
  "res_objects Services c = store_services c" "res_kind Services = KService"
  by (simp_all add: Services_def)

lemma ConfigMaps_simps [simp]:
  "res_objects ConfigMaps c = store_configmaps c" "res_kind ConfigMaps = KConfigMap"
  by (simp_all add: ConfigMaps_def)

lemma handleService_kept:
  assumes "wellKeyed (store_services c)"
  shows "wellKeyed (store_services (snd (handleService r pa dc c))) \<and>
         (k \<noteq> (Namespace pa, comp_Name dc) \<longrightarrow>
            map_of (store_services (snd (handleService r pa dc c))) k = map_of (store_services c) k)"
proof (cases "comp_Service dc")
  case None
  with assms show ?thesis by (simp add: handleService_def)
next
  case (Some spec)
  let ?obj = "\<lparr>Name = comp_Name dc, Namespace = Namespace pa, UID = [],
             Labels = [(LabelPlatformAdminGenerate, LabelService)],
             Annotations =
               [(AnnotationServiceTopologyKey, AnnotationServiceTopologyValueNodePool)],
             OwnerReferences = [], Finalizers = [], DeletionTimestamp = None,
             Service_Spec = spec\<rparr>"
  have k: "objKey ?obj = (Namespace pa, comp_Name dc)" by (simp add: objKey_def)
  have "snd (handleService r pa dc c) = snd (CreateOrUpdate r Services ?obj (SetOwnerReference pa) c)"
    using Some by (simp add: handleService_def)
  with CreateOrUpdate_kept[of Services c "SetOwnerReference pa" r ?obj k] assms k
  show ?thesis by simp
qed

lemma handleYurtAppSet_kept:
  assumes "wellKeyed (store_yurtappsets c)"
  shows "wellKeyed (store_yurtappsets (snd (handleYurtAppSet r pa dc c))) \<and>
         (k \<noteq> (Namespace pa, comp_Name dc) \<longrightarrow>
            map_of (store_yurtappsets (snd (handleYurtAppSet r pa dc c))) k =
              map_of (store_yurtappsets c) k)"
proof (cases "comp_Deployment dc")
  case None
  with assms show ?thesis by (simp add: handleYurtAppSet_def)
next
  case (Some spec)
  define yas where "yas = SetControllerReference pa
     \<lparr>Name = comp_Name dc, Namespace = Namespace pa, UID = [],
      Labels = [(LabelPlatformAdminGenerate, LabelDeployment)],
      Annotations = [], OwnerReferences = [], Finalizers = [],
      DeletionTimestamp = None,
      Spec_Selector = [(''app'', comp_Name dc)],
      Spec_WorkloadTemplate = ([(''app'', comp_Name dc)], spec),
      Spec_Topology_Pools = [] @ [newPool pa],
      Status_PoolReplicas = [], Status_ReadyReplicas = 0, Status_Replicas = 0\<rparr>"
  have k: "objKey yas = (Namespace pa, comp_Name dc)" by (simp add: yas_def) (simp add: objKey_def)
  obtain e c1 where u: "apiCreate r YurtAppSets yas c = (e, c1)"
    by (cases "apiCreate r YurtAppSets yas c")
  have "snd (handleYurtAppSet r pa dc c) = snd (apiCreate r YurtAppSets yas c)"
    using Some u by (simp add: handleYurtAppSet_def Let_def yas_def split: option.splits)
  with apiCreate_kept[of YurtAppSets c r yas k] assms k show ?thesis by simp
qed


lemma rangeComponents_need:
  "rangeComponents r pa dcs ready need c = (Ret u, ready', need', c') \<Longrightarrow>
   set need' = set need \<union> comp_Name ` set dcs"
proof (induction dcs arbitrary: ready need c)
  case Nil
  then show ?case by simp
next
  case (Cons dc rest)
  let ?k = "(Namespace pa, comp_Name dc)"
  let ?need = "comp_Name dc # need"
  have IH: "rangeComponents r pa rest rd ?need cc = (Ret u, ready', need', c') \<Longrightarrow>
            set need' = set need \<union> comp_Name ` set (dc # rest)" for rd cc
    using Cons.IH[of rd ?need cc] by auto
  obtain e c1 where h: "handleService r pa dc c = (e, c1)" by (cases "handleService r pa dc c")
  obtain g c2 where ge: "apiGet r YurtAppSets ?k c1 = (g, c2)" by (cases "apiGet r YurtAppSets ?k c1")
  show ?case
  proof (cases e)
    case (Some err)
    with h Cons.prems show ?thesis by (simp add: Let_def)
  next
    case None
    note e = None
    show ?thesis
    proof (cases g)
      case (Inl err)
      show ?thesis
      proof (cases "err = NotFound")
        case False
        with e h ge Inl Cons.prems show ?thesis by (simp add: Let_def)
      next
        case True
        obtain w c3 where hy: "handleYurtAppSet r pa dc c2 = (w, c3)"
          by (cases "handleYurtAppSet r pa dc c2")
        show ?thesis using e h ge Inl True hy Cons.prems IH[of ready c3]
          by (cases w) (simp_all add: Let_def)
      qed
    next
      case (Inr yas)
      show ?thesis
      proof (cases "map_of (Status_PoolReplicas yas) (Spec_PoolName pa) \<noteq> None")
        case True
        with e h ge Inr Cons.prems
          IH[of "if Status_ReadyReplicas yas = Status_Replicas yas then ready + 1 else ready" c2]
        show ?thesis by (simp add: Let_def)
      next
        case False
        obtain w c3 where pw: "apiPatch r YurtAppSets (joinPool pa yas) c2 = (w, c3)"
          by (cases "apiPatch r YurtAppSets (joinPool pa yas) c2")
        show ?thesis using e h ge Inr False pw Cons.prems IH[of ready c3]
          by (cases w) (simp_all add: Let_def)
      qed
    qed
  qed
qed

lemma rangeComponents_services_kept:
  assumes "wellKeyed (store_services c)"
      and "\<forall>dc\<in>set dcs. k \<noteq> (Namespace pa, comp_Name dc)"
  shows "wellKeyed (store_services (snd (snd (snd (rangeComponents r pa dcs ready need c))))) \<and>
         map_of (store_services (snd (snd (snd (rangeComponents r pa dcs ready need c))))) k =
           map_of (store_services c) k"
proof (rule rangeComponents_invariant
         [where I = "\<lambda>c'. wellKeyed (store_services c') \<and>
                          map_of (store_services c') k = map_of (store_services c) k"])
  show "wellKeyed (store_services c) \<and> map_of (store_services c) k = map_of (store_services c) k"
    using assms(1) by simp
next
  fix c' :: cluster and dc
  assume dc: "dc \<in> set dcs"
    and i: "wellKeyed (store_services c') \<and> map_of (store_services c') k = map_of (store_services c) k"
  from dc assms(2) have k: "k \<noteq> (Namespace pa, comp_Name dc)" by blast
  from handleService_kept[of c' r pa dc k] i k
  show "wellKeyed (store_services (snd (handleService r pa dc c'))) \<and>
        map_of (store_services (snd (handleService r pa dc c'))) k = map_of (store_services c) k"
    by simp
next
  fix c' :: cluster and dc
  assume "wellKeyed (store_services c') \<and> map_of (store_services c') k = map_of (store_services c) k"
  then show "wellKeyed (store_services (snd (apiGet r YurtAppSets (Namespace pa, comp_Name dc) c'))) \<and>
        map_of (store_services (snd (apiGet r YurtAppSets (Namespace pa, comp_Name dc) c'))) k =
          map_of (store_services c) k"
    by simp
next
  fix c' :: cluster and dc
  assume i: "wellKeyed (store_services c') \<and> map_of (store_services c') k = map_of (store_services c) k"
  have "store_services (snd (handleYurtAppSet r pa dc c')) = store_services c'"
    using handleYurtAppSet_snd[of r pa dc c'] by auto
  with i show "wellKeyed (store_services (snd (handleYurtAppSet r pa dc c'))) \<and>
        map_of (store_services (snd (handleYurtAppSet r pa dc c'))) k = map_of (store_services c) k"
    by simp
next
  fix c0 c' :: cluster and dc yas
  assume i: "wellKeyed (store_services c0) \<and> map_of (store_services c0) k = map_of (store_services c) k"
    and g: "apiGet r YurtAppSets (Namespace pa, comp_Name dc) c0 = (Inr yas, c')"
  have "store_services c' = store_services c0"
    using apiGet_stores(3)[of r YurtAppSets "(Namespace pa, comp_Name dc)" c0] g by simp
  with i show "wellKeyed (store_services (snd (apiPatch r YurtAppSets (joinPool pa yas) c'))) \<and>
        map_of (store_services (snd (apiPatch r YurtAppSets (joinPool pa yas) c'))) k =
          map_of (store_services c) k"
    by simp
qed

lemma rangeComponents_yurtappsets_kept:
  assumes "wellKeyed (store_yurtappsets c)"
      and "\<forall>dc\<in>set dcs. k \<noteq> (Namespace pa, comp_Name dc)"
  shows "wellKeyed (store_yurtappsets (snd (snd (snd (rangeComponents r pa dcs ready need c))))) \<and>
         map_of (store_yurtappsets (snd (snd (snd (rangeComponents r pa dcs ready need c))))) k =
           map_of (store_yurtappsets c) k"
proof (rule rangeComponents_invariant
         [where I = "\<lambda>c'. wellKeyed (store_yurtappsets c') \<and>
                          map_of (store_yurtappsets c') k = map_of (store_yurtappsets c) k"])
  show "wellKeyed (store_yurtappsets c) \<and> map_of (store_yurtappsets c) k = map_of (store_yurtappsets c) k"
    using assms(1) by simp
next
  fix c' :: cluster and dc
  assume "wellKeyed (store_yurtappsets c') \<and>
          map_of (store_yurtappsets c') k = map_of (store_yurtappsets c) k"
  then show "wellKeyed (store_yurtappsets (snd (handleService r pa dc c'))) \<and>
        map_of (store_yurtappsets (snd (handleService r pa dc c'))) k = map_of (store_yurtappsets c) k"
    by simp
next
  fix c' :: cluster and dc
  assume "wellKeyed (store_yurtappsets c') \<and>
          map_of (store_yurtappsets c') k = map_of (store_yurtappsets c) k"
  then show "wellKeyed (store_yurtappsets (snd (apiGet r YurtAppSets (Namespace pa, comp_Name dc) c'))) \<and>
        map_of (store_yurtappsets (snd (apiGet r YurtAppSets (Namespace pa, comp_Name dc) c'))) k =
          map_of (store_yurtappsets c) k"
    by simp
next
  fix c' :: cluster and dc
  assume dc: "dc \<in> set dcs"
    and i: "wellKeyed (store_yurtappsets c') \<and>
            map_of (store_yurtappsets c') k = map_of (store_yurtappsets c) k"
  from dc assms(2) have k: "k \<noteq> (Namespace pa, comp_Name dc)" by blast
  from handleYurtAppSet_kept[of c' r pa dc k] i k
  show "wellKeyed (store_yurtappsets (snd (handleYurtAppSet r pa dc c'))) \<and>
        map_of (store_yurtappsets (snd (handleYurtAppSet r pa dc c'))) k =
          map_of (store_yurtappsets c) k"
    by simp
next
  fix c0 c' :: cluster and dc yas
  assume dc: "dc \<in> set dcs"
    and i: "wellKeyed (store_yurtappsets c0) \<and>
            map_of (store_yurtappsets c0) k = map_of (store_yurtappsets c) k"
    and g: "apiGet r YurtAppSets (Namespace pa, comp_Name dc) c0 = (Inr yas, c')"
  from dc assms(2) have k: "k \<noteq> (Namespace pa, comp_Name dc)" by blast
  from apiGet_Inr[OF g] have c': "store_yurtappsets c' = store_yurtappsets c0"
    and st: "map_of (store_yurtappsets c0) (Namespace pa, comp_Name dc) = Some yas" by simp_all
  from i have "keyed (store_yurtappsets c0)" by (simp add: wellKeyed_def)
  from keyed_lookup[OF this st] have ky: "objKey (joinPool pa yas) = (Namespace pa, comp_Name dc)"
    by simp
  from apiWrite_kept[of YurtAppSets c' VPatch r "joinPool pa yas" k] i c' ky k
  show "wellKeyed (store_yurtappsets (snd (apiPatch r YurtAppSets (joinPool pa yas) c'))) \<and>
        map_of (store_yurtappsets (snd (apiPatch r YurtAppSets (joinPool pa yas) c'))) k =
          map_of (store_yurtappsets c) k"
    by simp
qed

text \<open>Collecting objects of one kind leaves the stores of the other kinds alone.\<close>

lemma removeUnneeded_Services_frame [simp]:
  "store_yurtappsets (removeUnneeded r Services pa need items c) = store_yurtappsets c"
  by (induction items arbitrary: c) (simp_all add: removeOwner_def Let_def split: option.splits)

lemma collectUnneeded_Services_frame [simp]:
  "store_yurtappsets (collectUnneeded r Services pa label need c) = store_yurtappsets c"
proof -
  obtain l c1 where li: "apiList r Services (Namespace pa) label c = (l, c1)"
    by (cases "apiList r Services (Namespace pa) label c")
  then have "store_yurtappsets c1 = store_yurtappsets c"
    using apiList_stores(4)[of r Services "Namespace pa" label c] by simp
  with li show ?thesis by (cases l) (simp_all add: collectUnneeded_def)
qed

lemma removeUnneeded_YurtAppSets_frame [simp]:
  "store_services (removeUnneeded r YurtAppSets pa need items c) = store_services c"
  by (induction items arbitrary: c) (simp_all add: removeOwner_def Let_def split: option.splits)

lemma collectUnneeded_YurtAppSets_frame [simp]:
  "store_services (collectUnneeded r YurtAppSets pa label need c) = store_services c"
proof -
  obtain l c1 where li: "apiList r YurtAppSets (Namespace pa) label c = (l, c1)"
    by (cases "apiList r YurtAppSets (Namespace pa) label c")
  then have "store_services c1 = store_services c"
    using apiList_stores(3)[of r YurtAppSets "Namespace pa" label c] by simp
  with li show ?thesis by (cases l) (simp_all add: collectUnneeded_def)
qed

lemma ConfigMaps_frames [simp]:
  "store_services (snd (CreateOrUpdate r ConfigMaps obj f c)) = store_services c"
  "store_yurtappsets (snd (CreateOrUpdate r ConfigMaps obj f c)) = store_yurtappsets c"
proof -
  obtain g c1 where ge: "apiGet r ConfigMaps (objKey obj) c = (g, c1)"
    by (cases "apiGet r ConfigMaps (objKey obj) c")
  then have s: "store_yurtappsets c1 = store_yurtappsets c" "store_services c1 = store_services c"
    using apiGet_stores[of r ConfigMaps "objKey obj" c] by simp_all
  show "store_services (snd (CreateOrUpdate r ConfigMaps obj f c)) = store_services c"
    using ge s by (cases g) (simp_all add: CreateOrUpdate_def)
  show "store_yurtappsets (snd (CreateOrUpdate r ConfigMaps obj f c)) = store_yurtappsets c"
    using ge s by (cases g) (simp_all add: CreateOrUpdate_def)
qed

lemma CreateOrUpdate_Services_configmaps [simp]:
  "store_configmaps (snd (CreateOrUpdate r Services obj f c)) = store_configmaps c"
proof -
  obtain g c1 where ge: "apiGet r Services (objKey obj) c = (g, c1)"
    by (cases "apiGet r Services (objKey obj) c")
  then have s: "store_configmaps c1 = store_configmaps c"
    using apiGet_stores[of r Services "objKey obj" c] by simp_all
  show ?thesis using ge s by (cases g) (simp_all add: CreateOrUpdate_def)
qed

lemma removeUnneeded_ConfigMaps_frame [simp]:
  "store_services (removeUnneeded r ConfigMaps pa need items c) = store_services c"
  "store_yurtappsets (removeUnneeded r ConfigMaps pa need items c) = store_yurtappsets c"
  by (induction items arbitrary: c) (simp_all add: removeOwner_def Let_def split: option.splits)

lemma removeUnneeded_configmaps_frame [simp]:
  "store_configmaps (removeUnneeded r Services pa need items c) = store_configmaps c"
  "store_configmaps (removeUnneeded r YurtAppSets pa need items' c) = store_configmaps c"
  by (induction items arbitrary: c, simp_all add: removeOwner_def Let_def split: option.splits)
     (induction items' arbitrary: c, simp_all add: removeOwner_def Let_def split: option.splits)

lemma collectUnneeded_frames [simp]:
  "store_services (collectUnneeded r ConfigMaps pa label need c) = store_services c"
  "store_yurtappsets (collectUnneeded r ConfigMaps pa label need c) = store_yurtappsets c"
  "store_configmaps (collectUnneeded r Services pa label need c) = store_configmaps c"
  "store_configmaps (collectUnneeded r YurtAppSets pa label need c) = store_configmaps c"
proof -
  obtain l c1 where li: "apiList r ConfigMaps (Namespace pa) label c = (l, c1)"
    by (cases "apiList r ConfigMaps (Namespace pa) label c")
  then have "store_services c1 = store_services c" "store_yurtappsets c1 = store_yurtappsets c"
    using apiList_stores[of r ConfigMaps "Namespace pa" label c] by simp_all
  with li show "store_services (collectUnneeded r ConfigMaps pa label need c) = store_services c"
    "store_yurtappsets (collectUnneeded r ConfigMaps pa label need c) = store_yurtappsets c"
    by (cases l; simp add: collectUnneeded_def)+
  obtain l c1 where li: "apiList r Services (Namespace pa) label c = (l, c1)"
    by (cases "apiList r Services (Namespace pa) label c")
  then have "store_configmaps c1 = store_configmaps c"
    using apiList_stores[of r Services "Namespace pa" label c] by simp_all
  with li show "store_configmaps (collectUnneeded r Services pa label need c) = store_configmaps c"
    by (cases l; simp add: collectUnneeded_def)
  obtain l c1 where li: "apiList r YurtAppSets (Namespace pa) label c = (l, c1)"
    by (cases "apiList r YurtAppSets (Namespace pa) label c")
  then have "store_configmaps c1 = store_configmaps c"
    using apiList_stores[of r YurtAppSets "Namespace pa" label c] by simp_all
  with li show "store_configmaps (collectUnneeded r YurtAppSets pa label need c) = store_configmaps c"
    by (cases l; simp add: collectUnneeded_def)
qed

lemma rangeConfigmaps_frame:
  "store_services (snd (rangeConfigmaps r pa cms need c)) = store_services c \<and>
   store_yurtappsets (snd (rangeConfigmaps r pa cms need c)) = store_yurtappsets c"
proof (induction cms arbitrary: need c)
  case Nil
  then show ?case by simp
next
  case (Cons cm cms)
  let ?cm = "cm\<lparr>Namespace := Namespace pa, Labels := [(LabelPlatformAdminGenerate, LabelConfigmap)]\<rparr>"
  obtain e c1 where u: "CreateOrUpdate r ConfigMaps ?cm (SetOwnerReference pa) c = (e, c1)"
    by (cases "CreateOrUpdate r ConfigMaps ?cm (SetOwnerReference pa) c")
  then have s: "store_services c1 = store_services c" "store_yurtappsets c1 = store_yurtappsets c"
    using ConfigMaps_frames[of r ?cm "SetOwnerReference pa" c] by simp_all
  show ?case using u s Cons.IH[where need = "Name ?cm # need" and c = c1]
    by (cases e) (simp_all add: Let_def)
qed

lemma reconcileConfigmap_frame:
  "store_services (snd (reconcileConfigmap r pa c)) = store_services c \<and>
   store_yurtappsets (snd (reconcileConfigmap r pa c)) = store_yurtappsets c"
proof -
  let ?cms = "if Spec_Security pa
             then index_map (SecurityConfigMaps (Configration r)) (Spec_Version pa)
             else index_map (NoSectyConfigMaps (Configration r)) (Spec_Version pa)"
  obtain res c1 where l: "rangeConfigmaps r pa ?cms [] c = (res, c1)"
    by (cases "rangeConfigmaps r pa ?cms [] c")
  then have s: "store_services c1 = store_services c" "store_yurtappsets c1 = store_yurtappsets c"
    using rangeConfigmaps_frame[of r pa ?cms "[]" c] by simp_all
  show ?thesis using l s by (cases res) (simp_all add: reconcileConfigmap_def Let_def)
qed

lemma rangeConfigmaps_kept:
  assumes "wellKeyed (store_configmaps c)"
      and "\<forall>cm\<in>set cms. k \<noteq> (Namespace pa, Name cm)"
  shows "wellKeyed (store_configmaps (snd (rangeConfigmaps r pa cms need c))) \<and>
         map_of (store_configmaps (snd (rangeConfigmaps r pa cms need c))) k =
           map_of (store_configmaps c) k"
  using assms
proof (induction cms arbitrary: need c)
  case Nil
  then show ?case by simp
next
  case (Cons cm cms)
  let ?cm = "cm\<lparr>Namespace := Namespace pa, Labels := [(LabelPlatformAdminGenerate, LabelConfigmap)]\<rparr>"
  have kk: "objKey ?cm = (Namespace pa, Name cm)" by (simp add: objKey_def)
  with Cons.prems(2) have k: "k \<noteq> objKey ?cm" by simp
  obtain e c1 where u: "CreateOrUpdate r ConfigMaps ?cm (SetOwnerReference pa) c = (e, c1)"
    by (cases "CreateOrUpdate r ConfigMaps ?cm (SetOwnerReference pa) c")
  from CreateOrUpdate_kept[of ConfigMaps c "SetOwnerReference pa" r ?cm k] Cons.prems(1) k u
  have w1: "wellKeyed (store_configmaps c1)"
    and m1: "map_of (store_configmaps c1) k = map_of (store_configmaps c) k" by simp_all
  from Cons.prems(2) have r: "\<forall>cm\<in>set cms. k \<noteq> (Namespace pa, Name cm)" by simp
  show ?case using u w1 m1 Cons.IH[OF w1 r, of "Name ?cm # need"] Cons.prems(1)
    by (cases e) (simp_all add: Let_def)
qed

lemma rangeConfigmaps_need:
  "rangeConfigmaps r pa cms need c = (Inr need', c') \<Longrightarrow> set need' = set need \<union> Name ` set cms"
proof (induction cms arbitrary: need c)
  case Nil
  then show ?case by simp
next
  case (Cons cm cms)
  let ?cm = "cm\<lparr>Namespace := Namespace pa, Labels := [(LabelPlatformAdminGenerate, LabelConfigmap)]\<rparr>"
  obtain e c1 where u: "CreateOrUpdate r ConfigMaps ?cm (SetOwnerReference pa) c = (e, c1)"
    by (cases "CreateOrUpdate r ConfigMaps ?cm (SetOwnerReference pa) c")
  show ?case using u Cons.prems Cons.IH[of "Name ?cm # need" c1]
    by (cases e) (auto simp: Let_def)
qed

lemma rangeComponents_configmaps_frame:
  "store_configmaps (snd (snd (snd (rangeComponents r pa dcs ready need c)))) = store_configmaps c"
proof (rule rangeComponents_invariant[where I = "\<lambda>c'. store_configmaps c' = store_configmaps c"])
  show "store_configmaps c = store_configmaps c" by simp
next
  fix c' :: cluster and dc assume "store_configmaps c' = store_configmaps c"
  then show "store_configmaps (snd (handleService r pa dc c')) = store_configmaps c"
    by (simp add: handleService_def split: option.splits)
next
  fix c' :: cluster and dc assume "store_configmaps c' = store_configmaps c"
  then show "store_configmaps (snd (apiGet r YurtAppSets (Namespace pa, comp_Name dc) c')) =
             store_configmaps c" by simp
next
  fix c' :: cluster and dc assume "store_configmaps c' = store_configmaps c"
  then show "store_configmaps (snd (handleYurtAppSet r pa dc c')) = store_configmaps c"
    using handleYurtAppSet_snd[of r pa dc c'] by auto
next
  fix c0 c' :: cluster and dc yas
  assume "store_configmaps c0 = store_configmaps c"
    and "apiGet r YurtAppSets (Namespace pa, comp_Name dc) c0 = (Inr yas, c')"
  then have "store_configmaps c' = store_configmaps c"
    using apiGet_stores(2)[of r YurtAppSets "(Namespace pa, comp_Name dc)" c0] by simp
  then show "store_configmaps (snd (apiPatch r YurtAppSets (joinPool pa yas) c')) = store_configmaps c"
    by simp
qed

lemma reconcileComponent_Ret:
  assumes "reconcileComponent r pa st c = (Ret b, st', c')"
      and "desiredComponentsOf r pa = Inr dcs"
  obtains u ready need c1 where
    "rangeComponents r pa dcs 0 [] c = (Ret u, ready, need, c1)"
    "c' = collectUnneeded r YurtAppSets pa LabelDeployment need
            (collectUnneeded r Services pa LabelService need c1)"
proof -
  obtain res ready need c1 where rg: "rangeComponents r pa dcs 0 [] c = (res, ready, need, c1)"
    by (cases "rangeComponents r pa dcs 0 [] c") auto
  show ?thesis
  proof (cases res)
    case (Ret u)
    with assms rg have "c' = collectUnneeded r YurtAppSets pa LabelDeployment need
            (collectUnneeded r Services pa LabelService need c1)"
      by (simp add: reconcileComponent_def Let_def)
    with rg Ret show ?thesis by (intro that) simp_all
  next
    case (Fail err)
    with assms rg show ?thesis by (simp add: reconcileComponent_def Let_def)
  next
    case (Panic p)
    with assms rg show ?thesis by (simp add: reconcileComponent_def Let_def)
  qed
qed

lemma reconcileComponent_collects_services:
  assumes "reconcileComponent r pa st c = (Ret b, st', c')"
      and "desiredComponentsOf r pa = Inr dcs"
      and "collects r KService" "wellKeyed (store_services c)"
      and "map_of (store_services c) k = Some t" "generatedBy pa LabelService t"
      and "Name t \<notin> comp_Name ` set dcs"
      and "firstIndex (\<lambda>owner. ref_UID owner = UID pa) (OwnerReferences t) = Some i"
  shows "map_of (store_services c') k = withoutOwnerAt i t"
proof -
  from reconcileComponent_Ret[OF assms(1,2)] obtain u ready need c1 where
    rg: "rangeComponents r pa dcs 0 [] c = (Ret u, ready, need, c1)"
    and c': "c' = collectUnneeded r YurtAppSets pa LabelDeployment need
            (collectUnneeded r Services pa LabelService need c1)" by blast
  from rangeComponents_need[OF rg] have need: "set need = comp_Name ` set dcs" by simp
  have "keyed (store_services c)" using assms(4) by (simp add: wellKeyed_def)
  from keyed_lookup[OF this assms(5)] have kt: "k = (Namespace t, Name t)" by (simp add: objKey_def)
  then have kk: "\<forall>dc\<in>set dcs. k \<noteq> (Namespace pa, comp_Name dc)" using assms(7) by auto
  from rangeComponents_services_kept[OF assms(4) kk, of r 0 "[]"] rg assms(5)
  have w1: "wellKeyed (store_services c1)" and m1: "map_of (store_services c1) k = Some t"
    by simp_all
  have "map_of (res_objects Services (collectUnneeded r Services pa LabelService need c1)) k =
          withoutOwnerAt i t"
    by (rule collectUnneeded_effect) (use assms(3,6,7,8) w1 m1 need in simp_all)
  then show ?thesis unfolding c' by simp
qed

lemma reconcileComponent_collects_yurtappsets:
  assumes "reconcileComponent r pa st c = (Ret b, st', c')"
      and "desiredComponentsOf r pa = Inr dcs"
      and "collects r KYurtAppSet" "wellKeyed (store_yurtappsets c)"
      and "map_of (store_yurtappsets c) k = Some t" "generatedBy pa LabelDeployment t"
      and "Name t \<notin> comp_Name ` set dcs"
      and "firstIndex (\<lambda>owner. ref_UID owner = UID pa) (OwnerReferences t) = Some i"
  shows "map_of (store_yurtappsets c') k = withoutOwnerAt i t"
proof -
  from reconcileComponent_Ret[OF assms(1,2)] obtain u ready need c1 where
    rg: "rangeComponents r pa dcs 0 [] c = (Ret u, ready, need, c1)"
    and c': "c' = collectUnneeded r YurtAppSets pa LabelDeployment need
            (collectUnneeded r Services pa LabelService need c1)" by blast
  from rangeComponents_need[OF rg] have need: "set need = comp_Name ` set dcs" by simp
  have "keyed (store_yurtappsets c)" using assms(4) by (simp add: wellKeyed_def)
  from keyed_lookup[OF this assms(5)] have kt: "k = (Namespace t, Name t)" by (simp add: objKey_def)
  then have kk: "\<forall>dc\<in>set dcs. k \<noteq> (Namespace pa, comp_Name dc)" using assms(7) by auto
  from rangeComponents_yurtappsets_kept[OF assms(4) kk, of r 0 "[]"] rg assms(5)
  have w1: "wellKeyed (store_yurtappsets c1)" and m1: "map_of (store_yurtappsets c1) k = Some t"
    by simp_all
  let ?c2 = "collectUnneeded r Services pa LabelService need c1"
  have w2: "wellKeyed (store_yurtappsets ?c2)" and m2: "map_of (store_yurtappsets ?c2) k = Some t"
    using w1 m1 by simp_all
  have "map_of (res_objects YurtAppSets (collectUnneeded r YurtAppSets pa LabelDeployment need ?c2)) k =
          withoutOwnerAt i t"
    by (rule collectUnneeded_effect) (use assms(3,6,7,8) w2 m2 need in simp_all)
  then show ?thesis unfolding c' by simp
qed

lemma reconcileConfigmap_collects:
  assumes "reconcileConfigmap r pa c = (Ret b, c')"
      and "collects r KConfigMap" "wellKeyed (store_configmaps c)"
      and "map_of (store_configmaps c) k = Some t" "generatedBy pa LabelConfigmap t"
      and "Name t \<notin> Name ` set (if Spec_Security pa
             then index_map (SecurityConfigMaps (Configration r)) (Spec_Version pa)
             else index_map (NoSectyConfigMaps (Configration r)) (Spec_Version pa))"
      and "firstIndex (\<lambda>owner. ref_UID owner = UID pa) (OwnerReferences t) = Some i"
  shows "map_of (store_configmaps c') k = withoutOwnerAt i t"
proof -
  let ?cms = "if Spec_Security pa
             then index_map (SecurityConfigMaps (Configration r)) (Spec_Version pa)
             else index_map (NoSectyConfigMaps (Configration r)) (Spec_Version pa)"
  obtain res c1 where l: "rangeConfigmaps r pa ?cms [] c = (res, c1)"
    by (cases "rangeConfigmaps r pa ?cms [] c")
  show ?thesis
  proof (cases res)
    case (Inl err)
    with assms(1) l show ?thesis by (simp add: reconcileConfigmap_def Let_def)
  next
    case (Inr need)
    with assms(1) l have c': "c' = collectUnneeded r ConfigMaps pa LabelConfigmap need c1"
      by (simp add: reconcileConfigmap_def Let_def)
    from rangeConfigmaps_need[of r pa ?cms "[]" c need c1] l Inr
    have need: "set need = Name ` set ?cms" by simp
    have "keyed (store_configmaps c)" using assms(3) by (simp add: wellKeyed_def)
    from keyed_lookup[OF this assms(4)] have kt: "k = (Namespace t, Name t)" by (simp add: objKey_def)
    then have kk: "\<forall>cm\<in>set ?cms. k \<noteq> (Namespace pa, Name cm)" using assms(6) by auto
    from rangeConfigmaps_kept[OF assms(3) kk, of r "[]"] l assms(4)
    have w1: "wellKeyed (store_configmaps c1)" and m1: "map_of (store_configmaps c1) k = Some t"
      by simp_all
    have "map_of (res_objects ConfigMaps (collectUnneeded r ConfigMaps pa LabelConfigmap need c1)) k =
            withoutOwnerAt i t"
      by (rule collectUnneeded_effect) (use assms(2,5,6,7) w1 m1 need in simp_all)
    then show ?thesis unfolding c' by simp
  qed
qed

lemma withoutOwnerAt_owners:
  assumes "firstIndex P (OwnerReferences obj) = Some i"
  shows "P (OwnerReferences obj ! i) \<and>
         (case withoutOwnerAt i obj of
            None \<Rightarrow> mset (OwnerReferences obj) = {#OwnerReferences obj ! i#}
          | Some obj' \<Rightarrow>
              obj' = obj\<lparr>OwnerReferences := OwnerReferences obj'\<rparr> \<and>
              OwnerReferences obj' \<noteq> [] \<and>
              mset (OwnerReferences obj') =
                mset (OwnerReferences obj) - {#OwnerReferences obj ! i#})"
proof -
  let ?os = "OwnerReferences obj"
  let ?os' = "take (length ?os - 1) (?os[i := ?os ! (length ?os - 1)])"
  from swap_remove_owner[OF assms] have p: "P (?os ! i)"
    and m: "mset ?os' = mset ?os - {#?os ! i#}" by simp_all
  from assms have i: "i < length ?os" by (simp add: firstIndex_Some)
  show ?thesis
  proof (cases "?os' = []")
    case True
    then have "mset ?os' = {#}" by (simp only: mset.simps)
    with m have "mset ?os - {#?os ! i#} = {#}" by (simp only:)
    moreover have "?os ! i \<in># mset ?os" using i by simp
    ultimately have "mset ?os = {#?os ! i#}"
      by (metis add_mset_remove_trivial insert_DiffM)
    with True p show ?thesis by (simp add: withoutOwnerAt_def Let_def)
  next
    case False
    with p m show ?thesis by (simp add: withoutOwnerAt_def Let_def)
  qed
qed

lemma updatePlatformAdmin_stores:
  "store_configmaps (snd (updatePlatformAdmin r pa c)) = store_configmaps c \<and>
   store_services (snd (updatePlatformAdmin r pa c)) = store_services c \<and>
   store_yurtappsets (snd (updatePlatformAdmin r pa c)) = store_yurtappsets c"
  by (simp add: updatePlatformAdmin_def split: option.splits)

lemma reconcileConfigmap_True: "reconcileConfigmap r pa c = (Ret b, c1) \<Longrightarrow> b"
  by (auto simp: reconcileConfigmap_def Let_def split: prod.splits sum.splits)

lemma reconcileComponent_configmaps_frame:
  "store_configmaps (snd (snd (reconcileComponent r pa st c))) = store_configmaps c"
proof (cases "desiredComponentsOf r pa")
  case (Inl err)
  then show ?thesis by (simp add: reconcileComponent_def)
next
  case (Inr dcs)
  obtain res ready need c1 where rg: "rangeComponents r pa dcs 0 [] c = (res, ready, need, c1)"
    by (cases "rangeComponents r pa dcs 0 [] c") auto
  with rangeComponents_configmaps_frame[of r pa dcs 0 "[]" c]
  have "store_configmaps c1 = store_configmaps c" by simp
  with Inr rg show ?thesis by (cases res) (simp_all add: reconcileComponent_def Let_def)
qed

text \<open>
  A pass of \<open>reconcileNormal\<close> that returns without an error has run both steps, on
  the parent with its finalizer added.
\<close>

lemma reconcileNormal_Ret:
  assumes "reconcileNormal r pa0 st c = (Ret res, st', c')"
  obtains pa c1 b st1 st2 c2 where
    "Namespace pa = Namespace pa0" "UID pa = UID pa0" "Annotations pa = Annotations pa0"
    "Spec_Security pa = Spec_Security pa0" "Spec_Version pa = Spec_Version pa0"
    "reconcileConfigmap r pa c = (Ret True, c1)"
    "reconcileComponent r pa st1 c1 = (Ret b, st2, c2)"
    "store_configmaps c' = store_configmaps c2" "store_services c' = store_services c2"
    "store_yurtappsets c' = store_yurtappsets c2"
proof -
  define pa where "pa = (AddFinalizer pa0 PlatformAdminFinalizer)
     \<lparr>Status := (Status (AddFinalizer pa0 PlatformAdminFinalizer))\<lparr>Initialized := True\<rparr>\<rparr>"
  define st1 where "st1 = SetPlatformAdminCondition st
                      (NewPlatformAdminCondition ConfigmapAvailableCondition True [] [])"
  have f: "Namespace pa = Namespace pa0" "UID pa = UID pa0" "Annotations pa = Annotations pa0"
    "Spec_Security pa = Spec_Security pa0" "Spec_Version pa = Spec_Version pa0"
    by (simp_all add: pa_def AddFinalizer_def)
  obtain g c1 where g: "reconcileConfigmap r pa c = (g, c1)" by (cases "reconcileConfigmap r pa c")
  obtain h st2 c2 where h: "reconcileComponent r pa st1 c1 = (h, st2, c2)"
    by (cases "reconcileComponent r pa st1 c1") auto
  obtain e c3 where u: "updatePlatformAdmin r pa c2 = (e, c3)"
    by (cases "updatePlatformAdmin r pa c2")
  from updatePlatformAdmin_stores[of r pa c2] u
  have c3: "store_configmaps c3 = store_configmaps c2" "store_services c3 = store_services c2"
    "store_yurtappsets c3 = store_yurtappsets c2" by simp_all
  have rn: "reconcileNormal r pa0 st c =
     (case (g, c1) of
        (Panic p, c1) \<Rightarrow> (Panic p, st, c1)
      | (Fail err, c1) \<Rightarrow>
          (Fail (Wrapf (''unexpected error while reconciling configmap for '' @
                         Namespace pa @ ''/'' @ Name pa) err),
           SetPlatformAdminCondition st
             (NewPlatformAdminCondition ConfigmapAvailableCondition False
                ConfigmapProvisioningFailedReason (Error_text err)),
           c1)
      | (Ret False, c1) \<Rightarrow>
          (Ret \<lparr>Requeue = False, RequeueAfter = 10\<rparr>,
           SetPlatformAdminCondition st
             (NewPlatformAdminCondition ConfigmapAvailableCondition False
                ConfigmapProvisioningReason []),
           c1)
      | (Ret True, c1) \<Rightarrow>
          (case reconcileComponent r pa st1 c1 of
             (Panic p, status2, c2) \<Rightarrow> (Panic p, status2, c2)
           | (Fail err, status2, c2) \<Rightarrow>
               (Fail (Wrapf (''unexpected error while reconciling component for '' @
                              Namespace pa @ ''/'' @ Name pa) err),
                SetPlatformAdminCondition status2
                  (NewPlatformAdminCondition ComponentAvailableCondition False
                     ComponentProvisioningReason (Error_text err)),
                c2)
           | (Ret False, status2, c2) \<Rightarrow>
               (Ret \<lparr>Requeue = False, RequeueAfter = 10\<rparr>,
                SetPlatformAdminCondition status2
                  (NewPlatformAdminCondition ComponentAvailableCondition False
                     ComponentProvisioningReason []),
                c2)
           | (Ret True, status2, c2) \<Rightarrow>
               (case updatePlatformAdmin r pa c2 of
                  (Some err, c3) \<Rightarrow>
                    (Fail err, (SetPlatformAdminCondition status2
                           (NewPlatformAdminCondition ComponentAvailableCondition True
                              [] []))\<lparr>Ready := True\<rparr>, c3)
                | (None, c3) \<Rightarrow>
                    (Ret Result_zero, (SetPlatformAdminCondition status2
                           (NewPlatformAdminCondition ComponentAvailableCondition True
                              [] []))\<lparr>Ready := True\<rparr>, c3))))"
    unfolding reconcileNormal_def Let_def pa_def[symmetric] st1_def[symmetric] g ..
  show ?thesis
  proof (cases g)
    case (Ret b0)
    with g have b0: "b0" by (auto dest: reconcileConfigmap_True)
    show ?thesis
    proof (cases h)
      case Ret2: (Ret b)
      have "store_configmaps c' = store_configmaps c2 \<and> store_services c' = store_services c2 \<and>
            store_yurtappsets c' = store_yurtappsets c2"
      proof (cases b)
        case True
        with assms rn Ret b0 Ret2 h u c3 show ?thesis by (cases e) simp_all
      next
        case False
        with assms rn Ret b0 Ret2 h show ?thesis by simp
      qed
      with f g h Ret b0 Ret2 show ?thesis by (intro that[of pa c1 st1 b st2 c2]) simp_all
    next
      case (Fail err)
      with assms rn Ret b0 h show ?thesis by simp
    next
      case (Panic p)
      with assms rn Ret b0 h show ?thesis by simp
    qed
  next
    case (Fail err)
    with assms rn show ?thesis by simp
  next
    case (Panic p)
    with assms rn show ?thesis by simp
  qed
qed


lemma reconcileNormal_collects:
  assumes "reconcileNormal r pa st c = (Ret res, st', c')"
      and "desiredComponentsOf r pa = Inr dcs"
  shows "collects r KConfigMap \<Longrightarrow> wellKeyed (store_configmaps c) \<Longrightarrow>
         map_of (store_configmaps c) k = Some cm \<Longrightarrow> generatedBy pa LabelConfigmap cm \<Longrightarrow>
         Name cm \<notin> Name ` set (if Spec_Security pa
             then index_map (SecurityConfigMaps (Configration r)) (Spec_Version pa)
             else index_map (NoSectyConfigMaps (Configration r)) (Spec_Version pa)) \<Longrightarrow>
         firstIndex (\<lambda>owner. ref_UID owner = UID pa) (OwnerReferences cm) = Some i \<Longrightarrow>
         map_of (store_configmaps c') k = withoutOwnerAt i cm"
    and "collects r KService \<Longrightarrow> wellKeyed (store_services c) \<Longrightarrow>
         map_of (store_services c) k = Some svc \<Longrightarrow> generatedBy pa LabelService svc \<Longrightarrow>
         Name svc \<notin> comp_Name ` set dcs \<Longrightarrow>
         firstIndex (\<lambda>owner. ref_UID owner = UID pa) (OwnerReferences svc) = Some i \<Longrightarrow>
         map_of (store_services c') k = withoutOwnerAt i svc"
    and "collects r KYurtAppSet \<Longrightarrow> wellKeyed (store_yurtappsets c) \<Longrightarrow>
         map_of (store_yurtappsets c) k = Some yas \<Longrightarrow> generatedBy pa LabelDeployment yas \<Longrightarrow>
         Name yas \<notin> comp_Name ` set dcs \<Longrightarrow>
         firstIndex (\<lambda>owner. ref_UID owner = UID pa) (OwnerReferences yas) = Some i \<Longrightarrow>
         map_of (store_yurtappsets c') k = withoutOwnerAt i yas"
proof -
  obtain pa' c1 b st1 st2 c2 where
    f: "Namespace pa' = Namespace pa" "UID pa' = UID pa" "Annotations pa' = Annotations pa"
       "Spec_Security pa' = Spec_Security pa" "Spec_Version pa' = Spec_Version pa"
    and g: "reconcileConfigmap r pa' c = (Ret True, c1)"
    and h: "reconcileComponent r pa' st1 c1 = (Ret b, st2, c2)"
    and s: "store_configmaps c' = store_configmaps c2" "store_services c' = store_services c2"
           "store_yurtappsets c' = store_yurtappsets c2"
    by (rule reconcileNormal_Ret[OF assms(1)]) (rule that)
  have gb: "generatedBy pa' = generatedBy pa" using f(1) by (simp add: generatedBy_def fun_eq_iff)
  have cc: "catalogComponents r pa' = catalogComponents r pa"
    by (simp add: catalogComponents_def f)
  have "desiredComponentsOf r pa' = desiredComponentsOf r pa"
    unfolding desiredComponentsOf_def cc f(3) ..
  then have dc: "desiredComponentsOf r pa' = Inr dcs" using assms(2) by simp
  from reconcileConfigmap_frame[of r pa' c] g
  have c1: "store_services c1 = store_services c" "store_yurtappsets c1 = store_yurtappsets c"
    by simp_all
  from reconcileComponent_configmaps_frame[of r pa' st1 c1] h
  have c2: "store_configmaps c2 = store_configmaps c1" by simp
  {
    assume a: "collects r KConfigMap" "wellKeyed (store_configmaps c)"
       "map_of (store_configmaps c) k = Some cm" "generatedBy pa LabelConfigmap cm"
       "Name cm \<notin> Name ` set (if Spec_Security pa
             then index_map (SecurityConfigMaps (Configration r)) (Spec_Version pa)
             else index_map (NoSectyConfigMaps (Configration r)) (Spec_Version pa))"
       "firstIndex (\<lambda>owner. ref_UID owner = UID pa) (OwnerReferences cm) = Some i"
    note rc = reconcileConfigmap_collects[OF g, unfolded gb f]
    have "map_of (store_configmaps c1) k = withoutOwnerAt i cm" by (rule rc[OF a])
    then show "map_of (store_configmaps c') k = withoutOwnerAt i cm" by (simp add: s c2)
  }
  {
    assume a: "collects r KService" "wellKeyed (store_services c)"
       "map_of (store_services c) k = Some svc" "generatedBy pa LabelService svc"
       "Name svc \<notin> comp_Name ` set dcs"
       "firstIndex (\<lambda>owner. ref_UID owner = UID pa) (OwnerReferences svc) = Some i"
    note rc = reconcileComponent_collects_services[OF h dc, unfolded gb f c1]
    have "map_of (store_services c2) k = withoutOwnerAt i svc" by (rule rc[OF a])
    then show "map_of (store_services c') k = withoutOwnerAt i svc" by (simp add: s)
  }
  {
    assume a: "collects r KYurtAppSet" "wellKeyed (store_yurtappsets c)"
       "map_of (store_yurtappsets c) k = Some yas" "generatedBy pa LabelDeployment yas"
       "Name yas \<notin> comp_Name ` set dcs"
       "firstIndex (\<lambda>owner. ref_UID owner = UID pa) (OwnerReferences yas) = Some i"
    note rc = reconcileComponent_collects_yurtappsets[OF h dc, unfolded gb f c1]
    have "map_of (store_yurtappsets c2) k = withoutOwnerAt i yas" by (rule rc[OF a])
    then show "map_of (store_yurtappsets c') k = withoutOwnerAt i yas" by (simp add: s)
  }
qed

text \<open>
  C8 (as amended).  Take a pass of \<open>reconcileNormal\<close> that returns without an error,
  a client that does not fail the list, delete and update calls of a kind, and a
  store of that kind in which every object sits under its own key, once.  Every
  stored child of that kind that is labelled as generated by this controller in the
  parent's namespace, lists the parent among its owners and has a name that is not
  needed for its kind loses its first owner reference to the parent: the child is
  deleted if no owner is left, and otherwise stored with the remaining owners and
  nothing else changed.  The names needed are the names of the desired components for
  exposures and workload-sets, and the names of the config objects of the selected
  catalog for config objects.  The last conjunct says what \<open>withoutOwnerAt\<close> leaves:
  the owners but for the one reference removed, which is a reference to the parent.
\<close>

theorem reconcileNormal_collects_unneeded:
  assumes "reconcileNormal r pa st c = (Ret res, st', c')"
      and "desiredComponentsOf r pa = Inr dcs"
  shows "(collects r KConfigMap \<and> wellKeyed (store_configmaps c) \<and>
          map_of (store_configmaps c) kcm = Some cm \<and> generatedBy pa LabelConfigmap cm \<and>
          Name cm \<notin> Name ` set (if Spec_Security pa
             then index_map (SecurityConfigMaps (Configration r)) (Spec_Version pa)
             else index_map (NoSectyConfigMaps (Configration r)) (Spec_Version pa)) \<and>
          firstIndex (\<lambda>owner. ref_UID owner = UID pa) (OwnerReferences cm) = Some icm \<longrightarrow>
            map_of (store_configmaps c') kcm = withoutOwnerAt icm cm) \<and>
         (collects r KService \<and> wellKeyed (store_services c) \<and>
          map_of (store_services c) ksvc = Some svc \<and> generatedBy pa LabelService svc \<and>
          Name svc \<notin> comp_Name ` set dcs \<and>
          firstIndex (\<lambda>owner. ref_UID owner = UID pa) (OwnerReferences svc) = Some isvc \<longrightarrow>
            map_of (store_services c') ksvc = withoutOwnerAt isvc svc) \<and>
         (collects r KYurtAppSet \<and> wellKeyed (store_yurtappsets c) \<and>
          map_of (store_yurtappsets c) kyas = Some yas \<and> generatedBy pa LabelDeployment yas \<and>
          Name yas \<notin> comp_Name ` set dcs \<and>
          firstIndex (\<lambda>owner. ref_UID owner = UID pa) (OwnerReferences yas) = Some iyas \<longrightarrow>
            map_of (store_yurtappsets c') kyas = withoutOwnerAt iyas yas) \<and>
         (firstIndex P (OwnerReferences obj) = Some j \<longrightarrow>
            P (OwnerReferences obj ! j) \<and>
            (case withoutOwnerAt j obj of
               None \<Rightarrow> mset (OwnerReferences obj) = {#OwnerReferences obj ! j#}
             | Some obj' \<Rightarrow>
                 obj' = obj\<lparr>OwnerReferences := OwnerReferences obj'\<rparr> \<and>
                 OwnerReferences obj' \<noteq> [] \<and>
                 mset (OwnerReferences obj') =
                   mset (OwnerReferences obj) - {#OwnerReferences obj ! j#}))"
proof (intro conjI impI)
  assume "collects r KConfigMap \<and> wellKeyed (store_configmaps c) \<and>
          map_of (store_configmaps c) kcm = Some cm \<and> generatedBy pa LabelConfigmap cm \<and>
          Name cm \<notin> Name ` set (if Spec_Security pa
             then index_map (SecurityConfigMaps (Configration r)) (Spec_Version pa)
             else index_map (NoSectyConfigMaps (Configration r)) (Spec_Version pa)) \<and>
          firstIndex (\<lambda>owner. ref_UID owner = UID pa) (OwnerReferences cm) = Some icm"
  then show "map_of (store_configmaps c') kcm = withoutOwnerAt icm cm"
    by (elim conjE) (rule reconcileNormal_collects(1)[OF assms])
next
  assume "collects r KService \<and> wellKeyed (store_services c) \<and>
          map_of (store_services c) ksvc = Some svc \<and> generatedBy pa LabelService svc \<and>
          Name svc \<notin> comp_Name ` set dcs \<and>
          firstIndex (\<lambda>owner. ref_UID owner = UID pa) (OwnerReferences svc) = Some isvc"
  then show "map_of (store_services c') ksvc = withoutOwnerAt isvc svc"
    by (elim conjE) (rule reconcileNormal_collects(2)[OF assms])
next
  assume "collects r KYurtAppSet \<and> wellKeyed (store_yurtappsets c) \<and>
          map_of (store_yurtappsets c) kyas = Some yas \<and> generatedBy pa LabelDeployment yas \<and>
          Name yas \<notin> comp_Name ` set dcs \<and>
          firstIndex (\<lambda>owner. ref_UID owner = UID pa) (OwnerReferences yas) = Some iyas"
  then show "map_of (store_yurtappsets c') kyas = withoutOwnerAt iyas yas"
    by (elim conjE) (rule reconcileNormal_collects(3)[OF assms])
next
  assume j: "firstIndex P (OwnerReferences obj) = Some j"
  from withoutOwnerAt_owners[OF j] show "P (OwnerReferences obj ! j)" by simp
  from withoutOwnerAt_owners[OF j]
  show "case withoutOwnerAt j obj of
               None \<Rightarrow> mset (OwnerReferences obj) = {#OwnerReferences obj ! j#}
             | Some obj' \<Rightarrow>
                 obj' = obj\<lparr>OwnerReferences := OwnerReferences obj'\<rparr> \<and>
                 OwnerReferences obj' \<noteq> [] \<and>
                 mset (OwnerReferences obj') =
                   mset (OwnerReferences obj) - {#OwnerReferences obj ! j#}" by simp
qed

theorem reconcileNormal_collects_unneeded_witness:
  "map_of (store_configmaps
             (snd (snd (reconcileNormal example_reconciler edgex empty_status stale_cluster))))
     (''default'', ''old-variables'') = Some (old_config\<lparr>OwnerReferences := [other_owner]\<rparr>) \<and>
   map_of (store_services
             (snd (snd (reconcileNormal example_reconciler edgex empty_status stale_cluster))))
     (''default'', ''old'') = None \<and>
   map_of (store_yurtappsets
             (snd (snd (reconcileNormal example_reconciler edgex empty_status stale_cluster))))
     (''default'', ''old'') = None \<and>
   ref_UID (OwnerReferences old_config ! 0) = UID edgex \<and>
   mset [other_owner] = mset (OwnerReferences old_config) - {#OwnerReferences old_config ! 0#}"
proof -
  let ?out = "reconcileNormal example_reconciler edgex empty_status stale_cluster"
  let ?cms = "if Spec_Security edgex
             then index_map (SecurityConfigMaps (Configration example_reconciler)) (Spec_Version edgex)
             else index_map (NoSectyConfigMaps (Configration example_reconciler)) (Spec_Version edgex)"
  have "fst ?out = Ret \<lparr>Requeue = False, RequeueAfter = 10\<rparr>" by code_simp
  then have run: "?out = (Ret \<lparr>Requeue = False, RequeueAfter = 10\<rparr>, fst (snd ?out), snd (snd ?out))"
    by (simp add: prod_eq_iff)
  have dcs: "desiredComponentsOf example_reconciler edgex = Inr [foo]" by code_simp
  have co: "collects example_reconciler KConfigMap" "collects example_reconciler KService"
    "collects example_reconciler KYurtAppSet"
    by (simp_all add: collects_def example_reconciler_def)
  have wk: "wellKeyed (store_configmaps stale_cluster)" "wellKeyed (store_services stale_cluster)"
    "wellKeyed (store_yurtappsets stale_cluster)" by code_simp+
  have st: "map_of (store_configmaps stale_cluster) (''default'', ''old-variables'') = Some old_config"
    "map_of (store_services stale_cluster) (''default'', ''old'') = Some old_service"
    "map_of (store_yurtappsets stale_cluster) (''default'', ''old'') = Some old_yas"
    by (simp_all add: stale_cluster_def)
  have gb: "generatedBy edgex LabelConfigmap old_config" "generatedBy edgex LabelService old_service"
    "generatedBy edgex LabelDeployment old_yas" by code_simp+
  have nn: "Name old_config \<notin> Name ` set ?cms" "Name old_service \<notin> comp_Name ` set [foo]"
    "Name old_yas \<notin> comp_Name ` set [foo]" by code_simp+
  have fi: "firstIndex (\<lambda>owner. ref_UID owner = UID edgex) (OwnerReferences old_config) = Some 0"
    "firstIndex (\<lambda>owner. ref_UID owner = UID edgex) (OwnerReferences old_service) = Some 0"
    "firstIndex (\<lambda>owner. ref_UID owner = UID edgex) (OwnerReferences old_yas) = Some 0"
    by code_simp+
  have wo: "withoutOwnerAt 0 old_config = Some (old_config\<lparr>OwnerReferences := [other_owner]\<rparr>)"
    "withoutOwnerAt 0 old_service = None" "withoutOwnerAt 0 old_yas = None" by code_simp+
  note t = reconcileNormal_collects_unneeded[OF run dcs,
      where kcm = "(''default'', ''old-variables'')" and cm = old_config and icm = 0
        and ksvc = "(''default'', ''old'')" and svc = old_service and isvc = 0
        and kyas = "(''default'', ''old'')" and yas = old_yas and iyas = 0
        and P = "\<lambda>owner. ref_UID owner = UID edgex" and obj = old_config and j = 0]
  from t co(1) wk(1) st(1) gb(1) nn(1) fi(1)
  have "map_of (store_configmaps (snd (snd ?out))) (''default'', ''old-variables'') =
          withoutOwnerAt 0 old_config" by blast
  moreover from t co(2) wk(2) st(2) gb(2) nn(2) fi(2)
  have "map_of (store_services (snd (snd ?out))) (''default'', ''old'') =
          withoutOwnerAt 0 old_service" by blast
  moreover from t co(3) wk(3) st(3) gb(3) nn(3) fi(3)
  have "map_of (store_yurtappsets (snd (snd ?out))) (''default'', ''old'') =
          withoutOwnerAt 0 old_yas" by blast
  moreover from t fi(1) have "ref_UID (OwnerReferences old_config ! 0) = UID edgex"
    "case withoutOwnerAt 0 old_config of
               None \<Rightarrow> mset (OwnerReferences old_config) = {#OwnerReferences old_config ! 0#}
             | Some obj' \<Rightarrow>
                 obj' = old_config\<lparr>OwnerReferences := OwnerReferences obj'\<rparr> \<and>
                 OwnerReferences obj' \<noteq> [] \<and>
                 mset (OwnerReferences obj') =
                   mset (OwnerReferences old_config) - {#OwnerReferences old_config ! 0#}"
    by blast+
  ultimately show ?thesis by (simp add: wo)
qed

text \<open>
  C8 as stated does not hold for config objects: \<open>common-variables\<close> is labelled as
  generated, is owned by the parent and its name is not the name of a desired
  component, yet the pass keeps it as it is, because config objects are collected
  against the names of the catalog's config objects.
\<close>

theorem reconcileNormal_keeps_current_config:
  "desiredComponentsOf example_reconciler edgex = Inr [foo] \<and>
   map_of (store_configmaps stale_cluster) (''default'', ''common-variables'') =
     Some current_config \<and>
   generatedBy edgex LabelConfigmap current_config \<and>
   Name current_config \<notin> comp_Name ` set [foo] \<and>
   firstIndex (\<lambda>owner. ref_UID owner = UID edgex) (OwnerReferences current_config) = Some 0 \<and>
   fst (reconcileNormal example_reconciler edgex empty_status stale_cluster) =
     Ret \<lparr>Requeue = False, RequeueAfter = 10\<rparr> \<and>
   map_of (store_configmaps
             (snd (snd (reconcileNormal example_reconciler edgex empty_status stale_cluster))))
     (''default'', ''common-variables'') = Some current_config"
  by code_simp

section \<open>The join in the loop over the components\<close>

lemma joinPool_listed:
  "Spec_PoolName pa \<in> pool_Name ` set (Spec_Topology_Pools yas) \<Longrightarrow>
   joinPool pa yas = SetOwnerReference pa yas"
  by (force simp: joinPool_def newPool_def list_ex_iff Let_def)

lemma upsertOwnerRef_member: "ref \<in> set (OwnerReferences (upsertOwnerRef ref obj))"
  by (auto simp: upsertOwnerRef_def firstIndex_Some set_update_memI split: option.splits)

lemma joinPool_owner: "ownerRefOf pa None \<in> set (OwnerReferences (joinPool pa yas))"
  by (simp add: joinPool_def Let_def SetOwnerReference_def upsertOwnerRef_member)

text \<open>The calls of a step, by kind.\<close>

lemma CreateOrUpdate_kind:
  assumes "lawful R"
  shows "\<exists>tr. calls (snd (CreateOrUpdate r R obj f c)) = calls c @ tr \<and>
              (\<forall>e\<in>set tr. fst (snd (fst e)) = res_kind R)"
proof -
  obtain res c1 where g: "apiGet r R (objKey obj) c = (res, c1)" by (cases "apiGet r R (objKey obj) c")
  from apiGet_snd[of r R "objKey obj" c] g obtain e1 where
    c1: "c1 = called (VGet, res_kind R, objKey obj) e1 c" by auto
  have w: "\<exists>e. calls (snd (apiWrite v r R x c1)) = calls c1 @ [((v, res_kind R, objKey x), e)]" for v x
    using assms by (auto simp: apiWrite_def lawful_calls split: option.splits)
  have cr: "\<exists>e. calls (snd (apiCreate r R x c1)) = calls c1 @ [((VCreate, res_kind R, objKey x), e)]" for x
    using assms by (auto simp: apiCreate_def lawful_calls split: option.splits)
  show ?thesis
  proof (cases res)
    case (Inl err)
    show ?thesis
    proof (cases "err = NotFound")
      case True
      from cr[of "f obj"] obtain e where
        "calls (snd (apiCreate r R (f obj) c1)) = calls c1 @ [((VCreate, res_kind R, objKey (f obj)), e)]" ..
      with g Inl True c1 show ?thesis by (simp add: CreateOrUpdate_def)
    next
      case False
      with g Inl c1 show ?thesis by (simp add: CreateOrUpdate_def)
    qed
  next
    case (Inr existing)
    show ?thesis
    proof (cases "existing = f existing")
      case True
      with g Inr c1 show ?thesis by (simp add: CreateOrUpdate_def)
    next
      case False
      from w[of VUpdate "f existing"] obtain e where
        "calls (snd (apiUpdate r R (f existing) c1)) =
           calls c1 @ [((VUpdate, res_kind R, objKey (f existing)), e)]" ..
      with g Inr False c1 show ?thesis by (simp add: CreateOrUpdate_def)
    qed
  qed
qed

lemma handleService_kind:
  "\<exists>tr. calls (snd (handleService r pa dc c)) = calls c @ tr \<and>
        (\<forall>e\<in>set tr. fst (snd (fst e)) = KService)"
proof (cases "comp_Service dc")
  case None
  then show ?thesis by (simp add: handleService_def)
next
  case (Some spec)
  have k: "res_kind Services = KService" by (simp add: Services_def)
  show ?thesis
    unfolding handleService_def Some option.case k[symmetric]
    by (rule CreateOrUpdate_kind) simp
qed

lemma apiPatch_yas_effect:
  assumes "apiPatch r YurtAppSets obj c = (e, c')"
  shows "calls c' = calls c @ [((VPatch, KYurtAppSet, objKey obj), e)] \<and>
         (e = None \<longrightarrow> map_of (store_yurtappsets c') (objKey obj) = Some obj)"
proof (cases e)
  case None
  with assms apiWrite_None[of VPatch r YurtAppSets obj c c'] show ?thesis
    by (simp add: YurtAppSets_def update_conv')
next
  case (Some err)
  with assms apiWrite_Some[of VPatch r YurtAppSets obj c err c'] show ?thesis
    by (simp add: YurtAppSets_def)
qed

lemma handleYurtAppSet_kind:
  "\<exists>tr. calls (snd (handleYurtAppSet r pa dc c)) = calls c @ tr \<and>
        (\<forall>e\<in>set tr. fst e = (VCreate, KYurtAppSet, (Namespace pa, comp_Name dc)))"
proof (cases "comp_Deployment dc")
  case None
  then show ?thesis by (simp add: handleYurtAppSet_def)
next
  case (Some spec)
  have cr: "\<exists>e. calls (snd (apiCreate r YurtAppSets x c)) =
                 calls c @ [((VCreate, KYurtAppSet, objKey x), e)]" for x
    by (auto simp: apiCreate_def split: option.splits)
  define yas where "yas = SetControllerReference pa
     \<lparr>Name = comp_Name dc, Namespace = Namespace pa, UID = [],
      Labels = [(LabelPlatformAdminGenerate, LabelDeployment)],
      Annotations = [], OwnerReferences = [], Finalizers = [],
      DeletionTimestamp = None,
      Spec_Selector = [(''app'', comp_Name dc)],
      Spec_WorkloadTemplate = ([(''app'', comp_Name dc)], spec),
      Spec_Topology_Pools = [] @ [newPool pa],
      Status_PoolReplicas = [], Status_ReadyReplicas = 0, Status_Replicas = 0\<rparr>"
  have k: "objKey yas = (Namespace pa, comp_Name dc)" by (simp add: yas_def) (simp add: objKey_def)
  obtain e c1 where a: "apiCreate r YurtAppSets yas c = (e, c1)"
    by (cases "apiCreate r YurtAppSets yas c")
  from cr[of yas] a k obtain e' where
    "calls c1 = calls c @ [((VCreate, KYurtAppSet, (Namespace pa, comp_Name dc)), e')]"
    by auto
  moreover have "snd (handleYurtAppSet r pa dc c) = c1"
    using Some a by (cases e) (simp_all add: handleYurtAppSet_def Let_def yas_def)
  ultimately show ?thesis by simp
qed

text \<open>
  A workload-set whose status reports the pool is left alone by the loop, whatever
  the other components are: it stays as stored, and the only calls issued on it are
  fetches.
\<close>

lemma rangeComponents_reported_key:
  assumes "wellKeyed (store_yurtappsets c)"
      and "map_of (store_yurtappsets c) k = Some yas"
      and "map_of (Status_PoolReplicas yas) (Spec_PoolName pa) \<noteq> None"
  shows "\<exists>tr. calls (snd (snd (snd (rangeComponents r pa dcs ready need c)))) = calls c @ tr \<and>
              (\<forall>e\<in>set tr. fst (snd (fst e)) = KYurtAppSet \<and> snd (snd (fst e)) = k \<longrightarrow>
                            fst (fst e) = VGet) \<and>
              wellKeyed (store_yurtappsets (snd (snd (snd (rangeComponents r pa dcs ready need c))))) \<and>
              map_of (store_yurtappsets (snd (snd (snd (rangeComponents r pa dcs ready need c))))) k =
                Some yas"
  using assms(1,2)
proof (induction dcs arbitrary: ready need c)
  case Nil
  then show ?case by simp
next
  case (Cons dc rest)
  let ?kd = "(Namespace pa, comp_Name dc)"
  let ?need = "comp_Name dc # need"
  let ?ok = "\<lambda>tr. \<forall>e\<in>set tr. fst (snd (fst e)) = KYurtAppSet \<and> snd (snd (fst e)) = k \<longrightarrow>
                            fst (fst e) = VGet"
  let ?Q = "\<lambda>c'. \<exists>tr. calls c' = calls c @ tr \<and> ?ok tr \<and>
                     wellKeyed (store_yurtappsets c') \<and> map_of (store_yurtappsets c') k = Some yas"
  have cont: "?Q (snd (snd (snd (rangeComponents r pa rest rd nd c'))))" if "?Q c'" for c' rd nd
  proof -
    from that obtain tr where tr: "calls c' = calls c @ tr" "?ok tr"
      "wellKeyed (store_yurtappsets c')" "map_of (store_yurtappsets c') k = Some yas" by blast
    from Cons.IH[OF tr(3,4), of rd nd] obtain tr' where tr':
      "calls (snd (snd (snd (rangeComponents r pa rest rd nd c')))) = calls c' @ tr'" "?ok tr'"
      "wellKeyed (store_yurtappsets (snd (snd (snd (rangeComponents r pa rest rd nd c')))))"
      "map_of (store_yurtappsets (snd (snd (snd (rangeComponents r pa rest rd nd c'))))) k = Some yas"
      by blast
    show ?thesis
    proof (intro exI[of _ "tr @ tr'"] conjI)
      show "calls (snd (snd (snd (rangeComponents r pa rest rd nd c')))) = calls c @ tr @ tr'"
        using tr(1) tr'(1) by simp
      show "?ok (tr @ tr')" using tr(2) tr'(2) by auto
    qed (rule tr'(3), rule tr'(4))
  qed
  obtain e c1 where h: "handleService r pa dc c = (e, c1)" by (cases "handleService r pa dc c")
  from handleService_kind[of r pa dc c] h obtain tr1 where
    tr1: "calls c1 = calls c @ tr1" "\<forall>e\<in>set tr1. fst (snd (fst e)) = KService" by auto
  have s1: "store_yurtappsets c1 = store_yurtappsets c"
    using handleService_frame(1)[of r pa dc c] h by simp
  have q1: "?Q c1"
    using tr1 s1 Cons.prems by (intro exI[of _ tr1]) auto
  obtain g c2 where ge: "apiGet r YurtAppSets ?kd c1 = (g, c2)" by (cases "apiGet r YurtAppSets ?kd c1")
  from apiGet_snd[of r YurtAppSets ?kd c1] ge obtain e2 where
    c2: "c2 = called (VGet, KYurtAppSet, ?kd) e2 c1" by auto
  have s2: "store_yurtappsets c2 = store_yurtappsets c" using c2 s1 by simp
  have cc2: "calls c2 = calls c @ tr1 @ [((VGet, KYurtAppSet, ?kd), e2)]" using c2 tr1 by simp
  have ok2: "?ok (tr1 @ [((VGet, KYurtAppSet, ?kd), e2)])" using tr1(2) by auto
  have q2: "?Q c2"
    using cc2 ok2 s2 Cons.prems by (intro exI[of _ "tr1 @ [((VGet, KYurtAppSet, ?kd), e2)]"]) simp
  have step: "?Q c3" if "calls c3 = calls c2 @ tr3" "\<forall>e\<in>set tr3. snd (snd (fst e)) = ?kd" "?kd \<noteq> k"
      "wellKeyed (store_yurtappsets c3)" "map_of (store_yurtappsets c3) k = map_of (store_yurtappsets c2) k"
    for c3 tr3
  proof (intro exI[of _ "tr1 @ [((VGet, KYurtAppSet, ?kd), e2)] @ tr3"] conjI)
    show "calls c3 = calls c @ tr1 @ [((VGet, KYurtAppSet, ?kd), e2)] @ tr3"
      using that(1) cc2 by simp
    show "?ok (tr1 @ [((VGet, KYurtAppSet, ?kd), e2)] @ tr3)"
      using tr1(2) that(2,3) by auto
    show "wellKeyed (store_yurtappsets c3)" by (rule that(4))
    show "map_of (store_yurtappsets c3) k = Some yas" using that(5) s2 Cons.prems(2) by simp
  qed
  show ?case
  proof (cases e)
    case (Some err)
    with h q1 show ?thesis by (simp add: Let_def)
  next
    case None
    note e = None
    show ?thesis
    proof (cases g)
      case (Inl err)
      show ?thesis
      proof (cases "err = NotFound")
        case False
        with e h ge Inl q2 show ?thesis by (simp add: Let_def)
      next
        case True
        with ge Inl have "map_of (res_objects YurtAppSets c1) ?kd = None"
          by (auto dest: apiGet_NotFound)
        with Cons.prems(2) s1 have ne: "?kd \<noteq> k" by auto
        obtain w c3 where hy: "handleYurtAppSet r pa dc c2 = (w, c3)"
          by (cases "handleYurtAppSet r pa dc c2")
        from handleYurtAppSet_kind[of r pa dc c2] hy obtain tr3 where
          tr3: "calls c3 = calls c2 @ tr3" "\<forall>e\<in>set tr3. fst e = (VCreate, KYurtAppSet, ?kd)"
          by auto
        have w2: "wellKeyed (store_yurtappsets c2)" using s2 Cons.prems(1) by simp
        from handleYurtAppSet_kept[OF w2, of r pa dc k] hy ne
        have k3: "wellKeyed (store_yurtappsets c3)"
          "map_of (store_yurtappsets c3) k = map_of (store_yurtappsets c2) k" by auto
        have q3: "?Q c3" by (rule step[OF tr3(1) _ ne k3]) (use tr3(2) in auto)
        show ?thesis
        proof (cases w)
          case (Ret u)
          with e h ge Inl True hy cont[OF q3, of ready ?need] show ?thesis by (simp add: Let_def)
        next
          case (Fail err')
          with e h ge Inl True hy q3 show ?thesis by (simp add: Let_def)
        next
          case (Panic p)
          with e h ge Inl True hy q3 show ?thesis by (simp add: Let_def)
        qed
      qed
    next
      case (Inr got)
      with ge have got: "map_of (store_yurtappsets c1) ?kd = Some got"
        by (auto dest: apiGet_Inr)
      show ?thesis
      proof (cases "map_of (Status_PoolReplicas got) (Spec_PoolName pa) \<noteq> None")
        case True
        let ?ready = "if Status_ReadyReplicas got = Status_Replicas got then ready + 1 else ready"
        from e h ge Inr True have "rangeComponents r pa (dc # rest) ready need c =
                rangeComponents r pa rest ?ready ?need c2" by (simp add: Let_def)
        with cont[OF q2, of ?ready ?need] show ?thesis by simp
      next
        case False
        with got s1 Cons.prems(2) assms(3) have ne: "?kd \<noteq> k" by auto
        have "keyed (store_yurtappsets c)" using Cons.prems(1) by (simp add: wellKeyed_def)
        from keyed_lookup[OF this] got s1 have ok: "objKey got = ?kd" by simp
        obtain e3 c3 where p: "apiPatch r YurtAppSets (joinPool pa got) c2 = (e3, c3)"
          by (cases "apiPatch r YurtAppSets (joinPool pa got) c2")
        from apiPatch_yas_effect[OF p] ok
        have cc3: "calls c3 = calls c2 @ [((VPatch, KYurtAppSet, ?kd), e3)]" by simp
        have w2: "wellKeyed (res_objects YurtAppSets c2)" using s2 Cons.prems(1) by simp
        from apiWrite_kept[OF lawful_resources(4) w2, of VPatch r "joinPool pa got" k] p ok ne
        have k3: "wellKeyed (store_yurtappsets c3)"
          "map_of (store_yurtappsets c3) k = map_of (store_yurtappsets c2) k" by auto
        have q3: "?Q c3" by (rule step[OF cc3 _ ne k3]) simp
        show ?thesis
        proof (cases e3)
          case None
          with e h ge Inr False p cont[OF q3, of ready ?need] show ?thesis by (simp add: Let_def)
        next
          case (Some err)
          with e h ge Inr False p q3 show ?thesis by (simp add: Let_def)
        qed
      qed
    qed
  qed
qed





section \<open>Reconciling twice\<close>

text \<open>
  C1.  From a cluster that holds only the parent, a first pass creates the config
  object, the exposure and the workload-set \<open>foo\<close>, the latter with a controller
  reference to the parent.  A second pass, with nothing changed in between, finds
  \<open>foo\<close> stored while its status does not report the pool, joins it and patches it:
  the join sets the owner reference anew, which turns the controller reference into a
  plain one.  The workload-sets after two passes are not the workload-sets after one
  pass, and the second pass has issued a write.
\<close>

theorem Reconcile_twice_differs:
  "fst (Reconcile example_reconciler (''default'', ''edgex'') fresh_cluster) =
     Ret \<lparr>Requeue = False, RequeueAfter = 10\<rparr> \<and>
   store_yurtappsets (snd (Reconcile example_reconciler (''default'', ''edgex'') fresh_cluster)) =
     [((''default'', ''foo''), foo_yas)] \<and>
   fst (Reconcile example_reconciler (''default'', ''edgex'')
          (snd (Reconcile example_reconciler (''default'', ''edgex'') fresh_cluster))) =
     Ret \<lparr>Requeue = False, RequeueAfter = 10\<rparr> \<and>
   store_yurtappsets
     (snd (Reconcile example_reconciler (''default'', ''edgex'')
             (snd (Reconcile example_reconciler (''default'', ''edgex'') fresh_cluster)))) =
     [((''default'', ''foo''), foo_yas\<lparr>OwnerReferences := [ownerRefOf edgex None]\<rparr>)] \<and>
   store_yurtappsets
     (snd (Reconcile example_reconciler (''default'', ''edgex'')
             (snd (Reconcile example_reconciler (''default'', ''edgex'') fresh_cluster)))) \<noteq>
   store_yurtappsets (snd (Reconcile example_reconciler (''default'', ''edgex'') fresh_cluster)) \<and>
   issued (snd (Reconcile example_reconciler (''default'', ''edgex'') fresh_cluster))
     (snd (Reconcile example_reconciler (''default'', ''edgex'')
             (snd (Reconcile example_reconciler (''default'', ''edgex'') fresh_cluster)))) =
     [((VGet, KPlatformAdmin, (''default'', ''edgex'')), None),
      ((VGet, KConfigMap, (''default'', ''common-variables'')), None),
      ((VList, KConfigMap, (''default'', ''Configmap'')), None),
      ((VGet, KService, (''default'', ''foo'')), None),
      ((VGet, KYurtAppSet, (''default'', ''foo'')), None),
      ((VPatch, KYurtAppSet, (''default'', ''foo'')), None),
      ((VList, KService, (''default'', ''Service'')), None),
      ((VList, KYurtAppSet, (''default'', ''Deployment'')), None),
      ((VStatusUpdate, KPlatformAdmin, (''default'', ''edgex'')), None)]"
  by code_simp


end
